theory Spec2Isabelle
  imports Complex_Main
begin

unbundle bit_operations_syntax

section \<open>Python values and errors\<close>

text \<open>
  Python integers are unbounded and are modelled by \<open>int\<close>; image dimensions, loop
  counters and run lengths never go below zero and are \<open>nat\<close>. A byte of a
  \<^verbatim>\<open>bytearray\<close> is an \<open>int\<close> between 0 and 255. Every exception the modelled code can raise
  is a value of \<open>py_error\<close>, returned as \<open>Inl\<close>.
\<close>

datatype py_error = IndexError | ValueError | StructError | ZeroDivisionError

section \<open>Run-length compression (core/pgs_encoder.py, \<^verbatim>\<open>_rle_compress\<close>)\<close>

text \<open>
  The inner loop
  \<^verbatim>\<open>while i + run < width and line[i + run] == val and run < 16383: run += 1\<close>.
  The conditions are evaluated left to right, so \<^verbatim>\<open>line[i + run]\<close> is read (and raises
  IndexError past the end of the line) before the cap on the run is looked at.
\<close>

function scan_run :: "int list \<Rightarrow> nat \<Rightarrow> nat \<Rightarrow> int \<Rightarrow> nat \<Rightarrow> py_error + nat" where
  "scan_run line width i val run =
     (if i + run < width then
        (if i + run < length line then
           (if line ! (i + run) = val \<and> run < 16383
            then scan_run line width i val (run + 1)
            else Inr run)
         else Inl IndexError)
      else Inr run)"
  by pat_completeness auto
termination
  by (relation "measure (\<lambda>(line, width, i, val, run). width - (i + run))") auto

declare scan_run.simps [simp del]

text \<open>\<^verbatim>\<open>struct.pack('>BB', 0x00, b)\<close>: both fields must fit an unsigned byte.\<close>

definition pack_BB :: "int \<Rightarrow> int \<Rightarrow> py_error + int list" where
  "pack_BB a b =
     (if 0 \<le> a \<and> a \<le> 255 \<and> 0 \<le> b \<and> b \<le> 255 then Inr [a, b] else Inl StructError)"

text \<open>\<^verbatim>\<open>rle.append(v)\<close> on a bytearray: ValueError unless \<open>v\<close> is in \<open>range(256)\<close>.\<close>

definition append_byte :: "int list \<Rightarrow> int \<Rightarrow> py_error + int list" where
  "append_byte rle v = (if 0 \<le> v \<and> v < 256 then Inr (rle @ [v]) else Inl ValueError)"

definition bind_err :: "py_error + 'a \<Rightarrow> ('a \<Rightarrow> py_error + 'b) \<Rightarrow> py_error + 'b" where
  "bind_err r f = (case r of Inl e \<Rightarrow> Inl e | Inr x \<Rightarrow> f x)"

text \<open>
  The body of the outer loop after the run has been measured: the bytes appended to
  \<open>rle\<close> for a run of \<open>run\<close> pixels of palette index \<open>val\<close>.
\<close>

definition emit_run :: "int list \<Rightarrow> int \<Rightarrow> nat \<Rightarrow> py_error + int list" where
  "emit_run rle val run =
     (if val = 0 then
        (if run \<le> 63 then
           bind_err (pack_BB 0 (int run)) (\<lambda>bs. Inr (rle @ bs))
         else
           bind_err (pack_BB 0 (64 OR drop_bit 8 (int run)))
             (\<lambda>bs. append_byte (rle @ bs) (int run AND 255)))
      else
        (if run = 1 then append_byte rle val
         else if run \<le> 63 then
           bind_err (pack_BB 0 (128 OR int run)) (\<lambda>bs. append_byte (rle @ bs) val)
         else
           bind_err (pack_BB 0 (192 OR drop_bit 8 (int run)))
             (\<lambda>bs. bind_err (append_byte (rle @ bs) (int run AND 255))
                (\<lambda>rle'. append_byte rle' val))))"

lemma scan_run_ge: "scan_run line width i val run = Inr r \<Longrightarrow> run \<le> r"
proof (induction line width i val run rule: scan_run.induct)
  case (1 line width i val run)
  show ?case
  proof (cases "i + run < width \<and> i + run < length line \<and> line ! (i + run) = val \<and> run < 16383")
    case True
    with "1.prems" have "scan_run line width i val (run + 1) = Inr r"
      by (subst (asm) scan_run.simps) simp
    with True "1.IH" have "run + 1 \<le> r" by simp
    then show ?thesis by simp
  next
    case False
    with "1.prems" show ?thesis
      by (subst (asm) scan_run.simps) (auto split: if_splits)
  qed
qed

text \<open>
  The outer loop \<^verbatim>\<open>while i < width\<close> over one scanline; \<^verbatim>\<open>val = line[i]\<close> raises
  IndexError when the line is shorter than \<open>width\<close>.
\<close>

function rle_line :: "int list \<Rightarrow> nat \<Rightarrow> nat \<Rightarrow> int list \<Rightarrow> py_error + int list" where
  "rle_line line width i rle =
     (if i < width then
        (if i < length line then
           (case scan_run line width i (line ! i) 1 of
              Inl e \<Rightarrow> Inl e
            | Inr run \<Rightarrow>
                (case emit_run rle (line ! i) run of
                   Inl e \<Rightarrow> Inl e
                 | Inr rle' \<Rightarrow> rle_line line width (i + run) rle'))
         else Inl IndexError)
      else Inr rle)"
  by pat_completeness auto
termination
proof (relation "measure (\<lambda>(line, width, i, rle). width - i)")
  show "wf (measure (\<lambda>(line, width, i, rle). width - i))" by simp
next
  fix line :: "int list" and width i :: nat and rle x2 x2a :: "int list" and run :: nat
  assume "i < width" and "scan_run line width i (line ! i) 1 = Inr run"
  then have "1 \<le> run" using scan_run_ge by blast
  with \<open>i < width\<close>
  show "((line, width, i + run, x2a), (line, width, i, rle))
          \<in> measure (\<lambda>(line, width, i, rle). width - i)"
    by simp
qed

declare rle_line.simps [simp del]

text \<open>Python's slice \<^verbatim>\<open>pixels[start:end]\<close> for \<open>0 \<le> start \<le> end\<close>.\<close>

definition py_slice :: "'a list \<Rightarrow> nat \<Rightarrow> nat \<Rightarrow> 'a list" where
  "py_slice xs start end = take (end - start) (drop start xs)"

text \<open>
  \<^verbatim>\<open>for row in range(height)\<close>: one scanline after the other, each followed by the
  end-of-line marker \<^verbatim>\<open>b'\x00\x00'\<close>.
\<close>

fun rle_rows :: "int list \<Rightarrow> nat \<Rightarrow> nat list \<Rightarrow> int list \<Rightarrow> py_error + int list" where
  "rle_rows pixels width [] rle = Inr rle"
| "rle_rows pixels width (row # rows) rle =
     (case rle_line (py_slice pixels (row * width) (row * width + width)) width 0 rle of
        Inl e \<Rightarrow> Inl e
      | Inr rle' \<Rightarrow> rle_rows pixels width rows (rle' @ [0, 0]))"

definition rle_compress :: "int list \<Rightarrow> nat \<Rightarrow> nat \<Rightarrow> py_error + int list" where
  "rle_compress pixels width height = rle_rows pixels width [0..<height] []"

text \<open>
  Modelled from the spec: the repository holds the compressor only. The decoder below
  is the reader of the stream the spec describes in section 4.4: a non-zero byte is one
  pixel of that palette index; a zero byte starts an escape whose second byte carries
  the colour flag (bit 7), the long-form flag (bit 6) and the run length (low six bits,
  followed by one more length byte in the long form), then the colour byte when the
  colour flag is set; the escape \<open>00 00\<close> ends the scanline. It returns the scanlines,
  one list of palette indices per end-of-line marker, and \<open>None\<close> on a truncated stream
  or on pixels that no end-of-line marker closes.
\<close>

fun rle_decode :: "int list \<Rightarrow> int list \<Rightarrow> int list list option" where
  "rle_decode [] cur = (if cur = [] then Some [] else None)"
| "rle_decode (b # bs) cur =
     (if b \<noteq> 0 then rle_decode bs (cur @ [b])
      else
        (case bs of
           [] \<Rightarrow> None
         | f # bs1 \<Rightarrow>
             if f = 0 then map_option ((#) cur) (rle_decode bs1 [])
             else if f div 64 mod 2 = 0 then
               (if f div 128 mod 2 = 0
                then rle_decode bs1 (cur @ replicate (nat (f mod 64)) 0)
                else
                  (case bs1 of
                     [] \<Rightarrow> None
                   | c # bs2 \<Rightarrow> rle_decode bs2 (cur @ replicate (nat (f mod 64)) c)))
             else
               (case bs1 of
                  [] \<Rightarrow> None
                | l # bs2 \<Rightarrow>
                    if f div 128 mod 2 = 0
                    then rle_decode bs2 (cur @ replicate (nat (f mod 64 * 256 + l)) 0)
                    else
                      (case bs2 of
                         [] \<Rightarrow> None
                       | c # bs3 \<Rightarrow>
                           rle_decode bs3 (cur @ replicate (nat (f mod 64 * 256 + l)) c)))))"

text \<open>The scanlines of an indexed bitmap, as \<^verbatim>\<open>_rle_compress\<close> cuts them.\<close>

definition scanlines :: "int list \<Rightarrow> nat \<Rightarrow> nat \<Rightarrow> int list list" where
  "scanlines pixels width height =
     map (\<lambda>row. py_slice pixels (row * width) (row * width + width)) [0..<height]"

text \<open>
  The spec's wording of the bytes of one run (section 4.4): a single non-transparent
  pixel is a literal index byte; every other run is an escape that starts with a zero
  byte, in the short form for a run of at most 63 pixels and in the long form (six high
  bits, then the low byte) above, followed by the colour byte unless the run is
  transparent. It is compared with \<open>emit_run\<close>, the code.
\<close>

definition run_bytes :: "int \<Rightarrow> nat \<Rightarrow> int list" where
  "run_bytes val run =
     (if val = 0 then
        (if run \<le> 63 then [0, int run] else [0, 64 + int run div 256, int run mod 256])
      else if run = 1 then [val]
      else if run \<le> 63 then [0, 128 + int run, val]
      else [0, 192 + int run div 256, int run mod 256, val])"

section \<open>Python numbers and strings used by the timecode code\<close>














section \<open>Timecodes (core/bdn_composer.py \<^verbatim>\<open>_ms_to_tc\<close>, core/pgs_encoder.py \<^verbatim>\<open>_tc_to_pts\<close>)\<close>









section \<open>The timeline slicer (core/bdn_composer.py, \<^verbatim>\<open>compose\<close>, steps 1 and 2)\<close>

text \<open>
  One entry of \<^verbatim>\<open>cues_metadata\<close>: a dictionary with the keys \<^verbatim>\<open>id\<close>, \<^verbatim>\<open>filename\<close>,
  \<^verbatim>\<open>start_ms\<close> and \<^verbatim>\<open>end_ms\<close>. Times are Python numbers and are modelled by exact
  rationals; the identifier is ordered (the renderer writes the start time into it).
\<close>

record 'i cue =
  cue_id :: 'i
  filename :: string
  start_ms :: rat
  end_ms :: rat

text \<open>
  What the loop has in hand for one interval when it reaches step 3: the interval and
  the active cues, sorted by identifier (\<^verbatim>\<open>active_cues.sort(key=lambda x: x['id'])\<close>, a
  stable sort).
\<close>

record 'i time_slice =
  t_start :: rat
  t_end :: rat
  active_cues :: "'i cue list"

text \<open>
  Step 1: every start and end, with the timing offset applied, collected in a set and
  sorted (\<^verbatim>\<open>sorted(list(points))\<close>).
\<close>

definition sorted_points :: "rat \<Rightarrow> 'i cue list \<Rightarrow> rat list" where
  "sorted_points offset cues =
     sorted_list_of_set
       (set (concat (map (\<lambda>c. [start_ms c + offset, end_ms c + offset]) cues)))"

text \<open>
  The body of \<^verbatim>\<open>for i in range(len(sorted_points) - 1)\<close> up to the sort of the active
  cues: \<open>None\<close> stands for \<^verbatim>\<open>continue\<close>.
\<close>

definition slice_at :: "rat \<Rightarrow> ('i::linorder) cue list \<Rightarrow> rat list \<Rightarrow> nat \<Rightarrow> 'i time_slice option" where
  "slice_at offset cues points i =
     (let t_start = points ! i;
          t_end = points ! (i + 1);
          duration = t_end - t_start
      in if duration \<le> 0 then None
         else
           let mid_point = (t_start + t_end) / 2;
               active =
                 filter (\<lambda>c. start_ms c + offset \<le> mid_point \<and> mid_point < end_ms c + offset)
                   cues
           in if active = [] then None
              else Some \<lparr>t_start = t_start, t_end = t_end,
                         active_cues = sort_key cue_id active\<rparr>)"

definition time_slices :: "rat \<Rightarrow> ('i::linorder) cue list \<Rightarrow> 'i time_slice list" where
  "time_slices offset cues =
     (let points = sorted_points offset cues
      in List.map_filter (slice_at offset cues points) [0..<length points - 1])"

section \<open>The compositor (core/bdn_composer.py, \<^verbatim>\<open>_create_composite_image\<close>)\<close>

text \<open>
  An RGBA pixel is the tuple \<open>(r, g, b, a)\<close> of its four bands. An image has a size and a
  pixel at every \<open>(x, y)\<close> inside it, as a PIL pixel access object \<^verbatim>\<open>pixels[x, y]\<close> gives
  it.
\<close>

type_synonym pixel = "nat \<times> nat \<times> nat \<times> nat"

record image =
  img_w :: nat
  img_h :: nat
  px :: "nat \<Rightarrow> nat \<Rightarrow> pixel"

definition alpha :: "pixel \<Rightarrow> nat" where
  "alpha p = (case p of (r, g, b, a) \<Rightarrow> a)"

text \<open>
  PIL's \<^verbatim>\<open>Image.getbbox()\<close> on the RGBA canvas, as the spec reads it (section 4.2): the
  bounding box \<open>(left, upper, right, lower)\<close> of the pixels with non-zero alpha, the right
  and lower edges exclusive, and \<open>None\<close> when there is no such pixel.
\<close>

definition getbbox :: "image \<Rightarrow> (nat \<times> nat \<times> nat \<times> nat) option" where
  "getbbox img =
     (let cols = filter (\<lambda>x. \<exists>y\<in>set [0..<img_h img]. alpha (px img x y) \<noteq> 0) [0..<img_w img];
          rows = filter (\<lambda>y. \<exists>x\<in>set [0..<img_w img]. alpha (px img x y) \<noteq> 0) [0..<img_h img]
      in if cols = [] \<or> rows = [] then None
         else Some (hd cols, hd rows, last cols + 1, last rows + 1))"

text \<open>
  The pixel-perfect alignment (steps 1 to 3 of the source): left and upper down to even,
  right and lower up to even, then the safety clamp into the canvas.
\<close>

definition align_box :: "int \<Rightarrow> int \<Rightarrow> int \<times> int \<times> int \<times> int \<Rightarrow> int \<times> int \<times> int \<times> int" where
  "align_box canvas_w canvas_h bbox =
     (case bbox of (left, upper, right, lower) \<Rightarrow>
        let left = (if left mod 2 \<noteq> 0 then left - 1 else left);
            upper = (if upper mod 2 \<noteq> 0 then upper - 1 else upper);
            right = (if right mod 2 \<noteq> 0 then right + 1 else right);
            lower = (if lower mod 2 \<noteq> 0 then lower + 1 else lower);
            left = max 0 left;
            upper = max 0 upper;
            right = min canvas_w right;
            lower = min canvas_h lower
        in (left, upper, right, lower))"

text \<open>\<^verbatim>\<open>canvas.crop((left, upper, right, lower))\<close> for a box inside the canvas.\<close>

definition crop :: "image \<Rightarrow> int \<times> int \<times> int \<times> int \<Rightarrow> image" where
  "crop img box =
     (case box of (left, upper, right, lower) \<Rightarrow>
        \<lparr>img_w = nat (right - left), img_h = nat (lower - upper),
         px = (\<lambda>x y. px img (x + nat left) (y + nat upper))\<rparr>)"

text \<open>
  The anti-crop guard. The guard colour is the one the source assigns,
  \<^verbatim>\<open>guard = (0, 0, 0, 0)\<close>; the four corners are looked at one after the other, each on the
  image as the corners before it left it.
\<close>

definition guard :: pixel where
  "guard = (0, 0, 0, 0)"

definition set_px :: "image \<Rightarrow> nat \<Rightarrow> nat \<Rightarrow> pixel \<Rightarrow> image" where
  "set_px img x y v = img\<lparr>px := (px img)(x := (px img x)(y := v))\<rparr>"

definition guard_corner :: "image \<Rightarrow> nat \<Rightarrow> nat \<Rightarrow> image" where
  "guard_corner img x y = (if alpha (px img x y) = 0 then set_px img x y guard else img)"

definition anti_crop_guard :: "image \<Rightarrow> image" where
  "anti_crop_guard cropped =
     (let w_c = img_w cropped;
          h_c = img_h cropped;
          img1 = guard_corner cropped 0 0;
          img2 = guard_corner img1 (w_c - 1) 0;
          img3 = guard_corner img2 0 (h_c - 1)
      in guard_corner img3 (w_c - 1) (h_c - 1))"

text \<open>
  \<^verbatim>\<open>_create_composite_image\<close> from \<^verbatim>\<open>bbox = canvas.getbbox()\<close> on: \<open>canvas\<close> is the canvas
  after the layers have been composited onto it. The result is the returned tuple
  \<open>(x, y, w, h)\<close> and the image written to \<^verbatim>\<open>output_path\<close> (\<open>None\<close> when nothing is written).
\<close>

definition create_composite_image :: "image \<Rightarrow> (int \<times> int \<times> int \<times> int) \<times> image option" where
  "create_composite_image canvas =
     (case getbbox canvas of
        None \<Rightarrow> ((0, 0, 0, 0), None)
      | Some (l, u, r, b) \<Rightarrow>
          (case align_box (int (img_w canvas)) (int (img_h canvas)) (int l, int u, int r, int b) of
             (left, upper, right, lower) \<Rightarrow>
               let w = right - left;
                   h = lower - upper;
                   cropped = crop canvas (left, upper, right, lower)
               in ((left, upper, w, h), Some (anti_crop_guard cropped))))"

text \<open>A canvas that is transparent except for an opaque white block.\<close>

definition block_canvas :: "nat \<Rightarrow> nat \<Rightarrow> nat \<Rightarrow> nat \<Rightarrow> nat \<Rightarrow> nat \<Rightarrow> image" where
  "block_canvas w h x0 y0 x1 y1 =
     \<lparr>img_w = w, img_h = h,
      px = (\<lambda>x y. if x0 \<le> x \<and> x < x1 \<and> y0 \<le> y \<and> y < y1
                   then (255, 255, 255, 255) else (0, 0, 0, 0))\<rparr>"

section \<open>Quantization (core/pgs_encoder.py, \<^verbatim>\<open>_quantize_image\<close>)\<close>

text \<open>
  The image is the list of its pixels, \<^verbatim>\<open>list(img.getdata())\<close>. PIL's
  \<^verbatim>\<open>img.getcolors(maxcolors)\<close> is not code of the repository and is a parameter \<open>gc\<close> of the
  model: given the pixels and \<open>maxcolors\<close> it returns the list of \<open>(count, colour)\<close> pairs,
  or \<open>None\<close>. The contract PIL documents for it is \<open>pil_getcolors\<close>: \<open>None\<close> exactly when the
  image has more than \<open>maxcolors\<close> colours, and otherwise every colour of the image once,
  with the number of its pixels, in an order PIL does not specify.
\<close>

type_synonym getcolors_fn = "pixel list \<Rightarrow> nat \<Rightarrow> (nat \<times> pixel) list option"

definition pil_getcolors :: "getcolors_fn \<Rightarrow> bool" where
  "pil_getcolors gc \<longleftrightarrow>
     (\<forall>pixels maxcolors.
        if maxcolors < card (set pixels) then gc pixels maxcolors = None
        else (\<exists>cs. gc pixels maxcolors = Some cs \<and> distinct (map snd cs) \<and>
                set (map snd cs) = set pixels \<and>
                (\<forall>nc\<in>set cs. fst nc = count_list pixels (snd nc))))"

text \<open>An executable \<^verbatim>\<open>getcolors\<close> that meets the contract: the colours in the order of \<open>remdups\<close>.\<close>

definition getcolors_first :: getcolors_fn where
  "getcolors_first pixels maxcolors =
     (let cs = remdups pixels
      in if maxcolors < length cs then None
         else Some (map (\<lambda>c. (count_list pixels c, c)) cs))"

text \<open>\<^verbatim>\<open>not colors\<close>: true for \<^verbatim>\<open>None\<close> and for the empty list.\<close>

definition not_colors :: "(nat \<times> pixel) list option \<Rightarrow> bool" where
  "not_colors colors = (case colors of None \<Rightarrow> True | Some cs \<Rightarrow> cs = [])"

text \<open>\<^verbatim>\<open>img.point(lambda p: (p & 0xF0))\<close>, applied to every band of every pixel.\<close>

definition posterize :: "pixel \<Rightarrow> pixel" where
  "posterize p = (case p of (r, g, b, a) \<Rightarrow> (r AND 240, g AND 240, b AND 240, a AND 240))"

text \<open>
  \<^verbatim>\<open>colors.sort(key=lambda x: x[0], reverse=True)\<close>: a stable sort by descending count
  (entries with the same count keep their order).
\<close>

definition sort_by_count_desc :: "(nat \<times> pixel) list \<Rightarrow> (nat \<times> pixel) list" where
  "sort_by_count_desc colors = rev (sort_key fst (rev colors))"

text \<open>
  The three strategies: the colour list that leaves them, and the image as they leave it
  (strategy 2 replaces \<^verbatim>\<open>img\<close> by its posterized copy).
\<close>

definition quantize_colors :: "getcolors_fn \<Rightarrow> pixel list \<Rightarrow> (nat \<times> pixel) list \<times> pixel list" where
  "quantize_colors gc img =
     (let colors = gc img 256
      in if \<not> not_colors colors then (the colors, img)
         else
           let img = map posterize img;
               colors = gc img 256
           in if \<not> not_colors colors then (the colors, img)
              else
                let colors = gc img 16777216
                in if \<not> not_colors colors
                   then (take 255 (sort_by_count_desc (the colors)), img)
                   else ([], img))"

text \<open>
  The RGBA palette: the raw colours without the transparent colour (\<^verbatim>\<open>list.remove\<close> takes
  out its first occurrence), the transparent colour put in front, cut to 256 entries.
\<close>

definition palette_rgba_of :: "(nat \<times> pixel) list \<Rightarrow> pixel list" where
  "palette_rgba_of colors =
     (let raw_colors = map snd colors;
          raw_colors = (if (0, 0, 0, 0) \<in> set raw_colors then remove1 (0, 0, 0, 0) raw_colors
                        else raw_colors);
          palette_rgba = [(0, 0, 0, 0)] @ raw_colors
      in take 256 palette_rgba)"

text \<open>
  The dictionary \<^verbatim>\<open>{c: i for i, c in enumerate(palette_rgba)}\<close> (a later entry of the same
  colour replaces an earlier one) and the lookup \<^verbatim>\<open>color_map.get(p, 0)\<close>.
\<close>

definition color_map :: "pixel list \<Rightarrow> (pixel \<rightharpoonup> nat)" where
  "color_map palette_rgba =
     fold (\<lambda>ic m. m(snd ic \<mapsto> fst ic)) (List.enumerate 0 palette_rgba) Map.empty"

definition get_index :: "(pixel \<rightharpoonup> nat) \<Rightarrow> pixel \<Rightarrow> nat" where
  "get_index m p = (case m p of None \<Rightarrow> 0 | Some i \<Rightarrow> i)"

text \<open>
  The BT.601 conversion of one palette entry, on exact rationals; \<^verbatim>\<open>int(y)\<close> truncates
  towards zero. The tuple is \<open>(y, cr, cb, a)\<close>, in the order the source appends it.
\<close>

definition py_trunc :: "rat \<Rightarrow> int" where
  "py_trunc x = (if 0 \<le> x then \<lfloor>x\<rfloor> else \<lceil>x\<rceil>)"

definition to_yuv :: "pixel \<Rightarrow> int \<times> int \<times> int \<times> int" where
  "to_yuv p =
     (case p of (r, g, b, a) \<Rightarrow>
        let y = 16 + (257 / 1000) * of_nat r + (504 / 1000) * of_nat g + (98 / 1000) * of_nat b;
            cb = 128 - (148 / 1000) * of_nat r - (291 / 1000) * of_nat g + (439 / 1000) * of_nat b;
            cr = 128 + (439 / 1000) * of_nat r - (368 / 1000) * of_nat g - (71 / 1000) * of_nat b;
            y = max 16 (min 235 (py_trunc y));
            cb = max 16 (min 240 (py_trunc cb));
            cr = max 16 (min 240 (py_trunc cr))
        in (y, cr, cb, int a))"

text \<open>
  \<^verbatim>\<open>_quantize_image\<close> up to the conversion of the palette: the RGBA palette, the indexed
  pixels and the image data they were computed from.
\<close>

definition quantize_rgba :: "getcolors_fn \<Rightarrow> pixel list \<Rightarrow> pixel list \<times> nat list \<times> pixel list" where
  "quantize_rgba gc img =
     (case quantize_colors gc img of
        (colors, img') \<Rightarrow>
          let palette_rgba = palette_rgba_of colors;
              cmap = color_map palette_rgba;
              pixels = img';
              indexed_pixels = map (get_index cmap) pixels
          in (palette_rgba, indexed_pixels, pixels))"

definition quantize_image :: "getcolors_fn \<Rightarrow> pixel list \<Rightarrow> (int \<times> int \<times> int \<times> int) list \<times> nat list" where
  "quantize_image gc img =
     (case quantize_rgba gc img of
        (palette_rgba, indexed_pixels, pixels) \<Rightarrow> (map to_yuv palette_rgba, indexed_pixels))"

text \<open>An image of 256 by 1 pixels with 256 different opaque colours.\<close>

definition red_ramp :: "pixel list" where
  "red_ramp = map (\<lambda>i. (i, 0, 0, 255)) [0..<256]"


section \<open>Run-length compression: the round trip\<close>

lemma or64: "0 \<le> h \<Longrightarrow> h < 64 \<Longrightarrow> (64::int) OR h = 64 + h"
proof -
  assume a: "0 \<le> h" "h < 64"
  then have t: "take_bit 6 h = h" by (simp add: take_bit_int_eq_self)
  have "(64::int) OR h = concat_bit 6 h 1"
    by (simp add: concat_bit_def t or.commute)
  also have "\<dots> = 64 + h" by (simp add: concat_bit_eq t)
  finally show ?thesis .
qed

lemma or128: "0 \<le> h \<Longrightarrow> h < 128 \<Longrightarrow> (128::int) OR h = 128 + h"
proof -
  assume a: "0 \<le> h" "h < 128"
  then have t: "take_bit 7 h = h" by (simp add: take_bit_int_eq_self)
  have "(128::int) OR h = concat_bit 7 h 1"
    by (simp add: concat_bit_def t or.commute)
  also have "\<dots> = 128 + h" by (simp add: concat_bit_eq t)
  finally show ?thesis .
qed

lemma or192: "0 \<le> h \<Longrightarrow> h < 64 \<Longrightarrow> (192::int) OR h = 192 + h"
proof -
  assume a: "0 \<le> h" "h < 64"
  then have t: "take_bit 6 h = h" by (simp add: take_bit_int_eq_self)
  have "(192::int) OR h = concat_bit 6 h 3"
    by (simp add: concat_bit_def t or.commute)
  also have "\<dots> = 192 + h" by (simp add: concat_bit_eq t)
  finally show ?thesis .
qed

lemma shr8: "drop_bit 8 (k::int) = k div 256"
  by (simp add: drop_bit_eq_div)

lemma and255: "(k::int) AND 255 = k mod 256"
proof -
  have "(255::int) = mask 8" by (simp add: mask_eq_exp_minus_1)
  then have "k AND 255 = take_bit 8 k" by (simp add: take_bit_eq_mask)
  then show ?thesis by (simp add: take_bit_eq_mod)
qed


lemma flag_byte:
  fixes k c :: int
  assumes "0 \<le> k" "k < 64"
  shows "(64 * c + k) div 64 = c" and "(64 * c + k) mod 64 = k"
proof -
  have d: "k div 64 = 0" using assms by (rule div_pos_pos_trivial)
  have m: "k mod 64 = k" using assms by (rule mod_pos_pos_trivial)
  have "(64 * c + k) div 64 = (k + c * 64) div 64" by (simp add: ac_simps)
  also have "\<dots> = c + k div 64" by (simp only: div_mult_self1)
  finally show "(64 * c + k) div 64 = c" using d by simp
  have "(64 * c + k) mod 64 = (k + c * 64) mod 64" by (simp add: ac_simps)
  also have "\<dots> = k mod 64" by (rule mod_mult_self1)
  finally show "(64 * c + k) mod 64 = k" using m by simp
qed

lemma flag_bits:
  fixes k :: int
  assumes k: "0 \<le> k" "k < 64"
  shows "(64 + k) div 64 mod 2 = 1" "(64 + k) div 128 mod 2 = 0" "(64 + k) mod 64 = k"
    "(128 + k) div 64 mod 2 = 0" "(128 + k) div 128 mod 2 = 1" "(128 + k) mod 64 = k"
    "(192 + k) div 64 mod 2 = 1" "(192 + k) div 128 mod 2 = 1" "(192 + k) mod 64 = k"
proof -
  have a: "(64 + k) div 64 = 1" "(64 + k) mod 64 = k"
    using flag_byte [OF k, of 1] by simp_all
  have b: "(128 + k) div 64 = 2" "(128 + k) mod 64 = k"
    using flag_byte [OF k, of 2] by simp_all
  have c: "(192 + k) div 64 = 3" "(192 + k) mod 64 = k"
    using flag_byte [OF k, of 3] by simp_all
  have d1: "(64 + k) div 128 = 0" using k by (intro div_pos_pos_trivial) auto
  have "(128 + k) div 128 = (k + 1 * 128) div 128" by simp
  also have "\<dots> = 1 + k div 128" by (simp only: div_mult_self1)
  also have "k div 128 = 0" using k by (intro div_pos_pos_trivial) auto
  finally have d2: "(128 + k) div 128 = 1" by simp
  have "(192 + k) div 128 = ((64 + k) + 1 * 128) div 128" by simp
  also have "\<dots> = 1 + (64 + k) div 128" by (simp only: div_mult_self1)
  finally have d3: "(192 + k) div 128 = 1" using d1 by simp
  show "(64 + k) div 64 mod 2 = 1" "(64 + k) div 128 mod 2 = 0" "(64 + k) mod 64 = k"
    "(128 + k) div 64 mod 2 = 0" "(128 + k) div 128 mod 2 = 1" "(128 + k) mod 64 = k"
    "(192 + k) div 64 mod 2 = 1" "(192 + k) div 128 mod 2 = 1" "(192 + k) mod 64 = k"
    by (simp_all only: a b c d1 d2 d3) simp_all
qed

lemma decode_literal:
  "b \<noteq> 0 \<Longrightarrow> rle_decode (b # rest) cur = rle_decode rest (cur @ [b])"
  by simp

lemma decode_short_transparent:
  "f \<noteq> 0 \<Longrightarrow> f div 64 mod 2 = 0 \<Longrightarrow> f div 128 mod 2 = 0 \<Longrightarrow>
   rle_decode (0 # f # rest) cur = rle_decode rest (cur @ replicate (nat (f mod 64)) 0)"
  by simp

lemma decode_long_transparent:
  "f \<noteq> 0 \<Longrightarrow> f div 64 mod 2 = 1 \<Longrightarrow> f div 128 mod 2 = 0 \<Longrightarrow>
   rle_decode (0 # f # l # rest) cur
     = rle_decode rest (cur @ replicate (nat (f mod 64 * 256 + l)) 0)"
  by simp

lemma decode_short_colour:
  "f \<noteq> 0 \<Longrightarrow> f div 64 mod 2 = 0 \<Longrightarrow> f div 128 mod 2 = 1 \<Longrightarrow>
   rle_decode (0 # f # c # rest) cur = rle_decode rest (cur @ replicate (nat (f mod 64)) c)"
  by simp

lemma decode_long_colour:
  "f \<noteq> 0 \<Longrightarrow> f div 64 mod 2 = 1 \<Longrightarrow> f div 128 mod 2 = 1 \<Longrightarrow>
   rle_decode (0 # f # l # c # rest) cur
     = rle_decode rest (cur @ replicate (nat (f mod 64 * 256 + l)) c)"
  by simp

lemma decode_run_bytes:
  assumes v: "0 \<le> val" "val \<le> 255" and r: "1 \<le> run" "run \<le> 16383"
  shows "rle_decode (run_bytes val run @ rest) cur = rle_decode rest (cur @ replicate run val)"
proof (cases "run \<le> 63")
  case True
  have k: "0 \<le> int run" "int run < 64" using True by auto
  have nz: "int run \<noteq> 0" "128 + int run \<noteq> 0" using r by auto
  have small: "int run div 64 mod 2 = 0" "int run div 128 mod 2 = 0"
    "int run mod 64 = int run"
    using k by simp_all
  note fk = flag_bits [OF k]
  show ?thesis
  proof (cases "val = 0")
    case True
    have "rle_decode (0 # int run # rest) cur = rle_decode rest (cur @ replicate run 0)"
      using decode_short_transparent [OF nz(1) small(1) small(2), of rest cur]
      by (simp only: small(3) nat_int)
    with True \<open>run \<le> 63\<close> show ?thesis by (simp add: run_bytes_def)
  next
    case False
    show ?thesis
    proof (cases "run = 1")
      case True
      with False show ?thesis by (simp add: run_bytes_def)
    next
      case r1: False
      have "rle_decode (0 # (128 + int run) # val # rest) cur
              = rle_decode rest (cur @ replicate run val)"
        using decode_short_colour [OF nz(2) fk(4) fk(5), of val rest cur]
        by (simp only: fk(6) nat_int)
      with False r1 \<open>run \<le> 63\<close> show ?thesis by (simp add: run_bytes_def)
    qed
  qed
next
  case False
  have h: "0 \<le> int run div 256" "int run div 256 < 64" using r by auto
  have n: "nat (int run div 256 * 256 + int run mod 256) = run" by simp
  have nzh: "64 + int run div 256 \<noteq> 0" "192 + int run div 256 \<noteq> 0" using h by auto
  note fh = flag_bits [OF h]
  have r1: "run \<noteq> 1" using False by simp
  show ?thesis
  proof (cases "val = 0")
    case True
    have "rle_decode (0 # (64 + int run div 256) # (int run mod 256) # rest) cur
            = rle_decode rest (cur @ replicate run 0)"
      using decode_long_transparent [OF nzh(1) fh(1) fh(2), of "int run mod 256" rest cur]
      by (simp only: fh(3) n)
    with True False show ?thesis by (simp add: run_bytes_def)
  next
    case nz: False
    have "rle_decode (0 # (192 + int run div 256) # (int run mod 256) # val # rest) cur
            = rle_decode rest (cur @ replicate run val)"
      using decode_long_colour [OF nzh(2) fh(7) fh(8), of "int run mod 256" val rest cur]
      by (simp only: fh(9) n)
    with nz False r1 show ?thesis by (simp add: run_bytes_def)
  qed
qed

lemma run_bytes_range:
  assumes v: "0 \<le> val" "val \<le> 255" and r: "1 \<le> run" "run \<le> 16383"
  shows "\<forall>b\<in>set (run_bytes val run). 0 \<le> b \<and> b \<le> 255"
proof -
  have h: "0 \<le> int run div 256" "int run div 256 < 64" using r by auto
  have m: "0 \<le> int run mod 256" "int run mod 256 < 256" by auto
  show ?thesis using v r h m by (auto simp: run_bytes_def)
qed


lemma emit_run_bytes:
  assumes v: "0 \<le> val" "val \<le> 255" and r: "1 \<le> run" "run \<le> 16383"
  shows "emit_run rle val run = Inr (rle @ run_bytes val run)"
proof -
  have h: "0 \<le> int run div 256" "int run div 256 < 64" using r by auto
  have m: "0 \<le> int run mod 256" "int run mod 256 < 256" by auto
  show ?thesis
    using v r h m
    by (auto simp: emit_run_def run_bytes_def pack_BB_def append_byte_def bind_err_def
        shr8 and255 or64 or128 or192)
qed

lemma scan_run_spec:
  assumes "width \<le> length line" and "run \<le> 16383" and "i + run \<le> width"
  shows "\<exists>r. scan_run line width i val run = Inr r \<and> run \<le> r \<and> r \<le> 16383 \<and>
           i + r \<le> width \<and> (\<forall>k. run \<le> k \<and> k < r \<longrightarrow> line ! (i + k) = val)"
  using assms
proof (induction line width i val run rule: scan_run.induct)
  case (1 line width i val run)
  show ?case
  proof (cases "i + run < width \<and> line ! (i + run) = val \<and> run < 16383")
    case True
    then have len: "i + run < length line" using "1.prems" by simp
    have step: "scan_run line width i val run = scan_run line width i val (run + 1)"
      using True len by (subst scan_run.simps) simp
    from "1.IH" [of] True len "1.prems"
    obtain r where r: "scan_run line width i val (run + 1) = Inr r" "run + 1 \<le> r"
      "r \<le> 16383" "i + r \<le> width" "\<forall>k. run + 1 \<le> k \<and> k < r \<longrightarrow> line ! (i + k) = val"
      by auto
    have "\<forall>k. run \<le> k \<and> k < r \<longrightarrow> line ! (i + k) = val"
    proof (intro allI impI)
      fix k assume k: "run \<le> k \<and> k < r"
      show "line ! (i + k) = val"
      proof (cases "k = run")
        case True
        then show ?thesis using \<open>i + run < width \<and> line ! (i + run) = val \<and> run < 16383\<close> by simp
      next
        case False
        with k r(5) show ?thesis by simp
      qed
    qed
    with r step show ?thesis by auto
  next
    case False
    then have "scan_run line width i val run = Inr run"
      using "1.prems" by (subst scan_run.simps) auto
    with "1.prems" show ?thesis by auto
  qed
qed

lemma run_prefix:
  assumes "i + r \<le> length line" and "\<forall>k. k < r \<longrightarrow> line ! (i + k) = val"
  shows "drop i line = replicate r val @ drop (i + r) line"
proof -
  have "take r (drop i line) = replicate r val"
    using assms by (auto simp: list_eq_iff_nth_eq)
  moreover have "drop i line = take r (drop i line) @ drop r (drop i line)"
    by (simp only: append_take_drop_id)
  moreover have "drop r (drop i line) = drop (i + r) line"
    by (simp add: add.commute)
  ultimately show ?thesis by simp
qed

lemma rle_line_decode:
  assumes "length line = width" and "\<forall>p\<in>set line. 0 \<le> p \<and> p \<le> 255"
  shows "\<exists>bs. rle_line line width i rle = Inr (rle @ bs) \<and>
           (\<forall>rest cur. rle_decode (bs @ rest) cur = rle_decode rest (cur @ drop i line)) \<and>
           (\<forall>b\<in>set bs. 0 \<le> b \<and> b \<le> 255)"
  using assms
proof (induction line width i rle rule: rle_line.induct)
  case (1 line width i rle)
  show ?case
  proof (cases "i < width")
    case False
    then have "rle_line line width i rle = Inr rle" by (subst rle_line.simps) simp
    moreover have "drop i line = []" using False "1.prems" by simp
    ultimately show ?thesis by simp
  next
    case True
    then have il: "i < length line" using "1.prems" by simp
    define val where "val = line ! i"
    have v: "0 \<le> val" "val \<le> 255" using il "1.prems"(2) by (auto simp: val_def)
    from scan_run_spec [of width line 1 i val] True "1.prems"
    obtain r where r: "scan_run line width i val 1 = Inr r" "1 \<le> r" "r \<le> 16383"
      "i + r \<le> width" "\<forall>k. 1 \<le> k \<and> k < r \<longrightarrow> line ! (i + k) = val"
      by auto
    have em: "emit_run rle val r = Inr (rle @ run_bytes val r)"
      using emit_run_bytes [OF v r(2) r(3)] .
    from "1.IH" [OF True il r(1) [unfolded val_def] em [unfolded val_def] "1.prems"]
    obtain bs where bs:
      "rle_line line width (i + r) (rle @ run_bytes val r) = Inr ((rle @ run_bytes val r) @ bs)"
      "\<forall>rest cur. rle_decode (bs @ rest) cur = rle_decode rest (cur @ drop (i + r) line)"
      "\<forall>b\<in>set bs. 0 \<le> b \<and> b \<le> 255"
      by (auto simp: val_def)
    have step: "rle_line line width i rle = rle_line line width (i + r) (rle @ run_bytes val r)"
      using True il r(1) em by (subst rle_line.simps) (simp add: val_def)
    have all: "\<forall>k. k < r \<longrightarrow> line ! (i + k) = val"
    proof (intro allI impI)
      fix k assume "k < r"
      then show "line ! (i + k) = val" using r(5) by (cases "k = 0") (auto simp: val_def)
    qed
    have dr: "drop i line = replicate r val @ drop (i + r) line"
      using run_prefix [of i r line val] r(4) "1.prems"(1) all by simp
    have dec: "\<forall>rest cur. rle_decode ((run_bytes val r @ bs) @ rest) cur
                 = rle_decode rest (cur @ drop i line)"
      using decode_run_bytes [OF v r(2) r(3)] bs(2) by (simp add: dr)
    have rng: "\<forall>b\<in>set (run_bytes val r @ bs). 0 \<le> b \<and> b \<le> 255"
      using run_bytes_range [OF v r(2) r(3)] bs(3) by auto
    have "rle_line line width i rle = Inr (rle @ (run_bytes val r @ bs))"
      using step bs(1) by simp
    with dec rng show ?thesis by blast
  qed
qed


lemma scan_run_cap: "scan_run line width i val run = Inr r \<Longrightarrow> run \<le> 16383 \<Longrightarrow> r \<le> 16383"
proof (induction line width i val run rule: scan_run.induct)
  case (1 line width i val run)
  show ?case
  proof (cases "i + run < width \<and> i + run < length line \<and> line ! (i + run) = val \<and> run < 16383")
    case True
    with "1.prems" have "scan_run line width i val (run + 1) = Inr r"
      by (subst (asm) scan_run.simps) simp
    with True "1.IH" show ?thesis by simp
  next
    case False
    with "1.prems" show ?thesis
      by (subst (asm) scan_run.simps) (auto split: if_splits)
  qed
qed

lemma length_py_slice:
  "start + n \<le> length xs \<Longrightarrow> length (py_slice xs start (start + n)) = n"
  by (simp add: py_slice_def)

lemma set_py_slice: "set (py_slice xs start end) \<subseteq> set xs"
  unfolding py_slice_def by (meson set_take_subset set_drop_subset subset_trans)

lemma rle_rows_decode:
  assumes "\<forall>row\<in>set rows. row * width + width \<le> length pixels"
    and "\<forall>p\<in>set pixels. 0 \<le> p \<and> p \<le> 255"
  shows "\<exists>bs chunks. rle_rows pixels width rows rle = Inr (rle @ bs) \<and>
           (\<forall>rest. rle_decode (bs @ rest) [] =
              map_option
                ((@) (map (\<lambda>row. py_slice pixels (row * width) (row * width + width)) rows))
                (rle_decode rest [])) \<and>
           length chunks = length rows \<and> bs = concat (map (\<lambda>c. c @ [0, 0]) chunks) \<and>
           (\<forall>b\<in>set bs. 0 \<le> b \<and> b \<le> 255)"
  using assms
proof (induction rows arbitrary: rle)
  case Nil
  have "map_option (\<lambda>a. a) x = x" for x :: "int list list option"
    by (cases x) simp_all
  then show ?case by simp
next
  case (Cons row rows)
  define line where "line = py_slice pixels (row * width) (row * width + width)"
  have len: "length line = width"
    using Cons.prems(1) by (simp add: line_def length_py_slice)
  have rng: "\<forall>p\<in>set line. 0 \<le> p \<and> p \<le> 255"
    using Cons.prems(2) set_py_slice [of pixels "row * width" "row * width + width"]
    by (auto simp: line_def)
  from rle_line_decode [OF len rng, of 0 rle]
  obtain c where c: "rle_line line width 0 rle = Inr (rle @ c)"
    "\<forall>rest cur. rle_decode (c @ rest) cur = rle_decode rest (cur @ line)"
    "\<forall>b\<in>set c. 0 \<le> b \<and> b \<le> 255"
    by auto
  from Cons.IH [of "(rle @ c) @ [0, 0]"] Cons.prems
  obtain bs chunks where bs:
    "rle_rows pixels width rows ((rle @ c) @ [0, 0]) = Inr (((rle @ c) @ [0, 0]) @ bs)"
    "\<forall>rest. rle_decode (bs @ rest) [] =
       map_option ((@) (map (\<lambda>row. py_slice pixels (row * width) (row * width + width)) rows))
         (rle_decode rest [])"
    "length chunks = length rows" "bs = concat (map (\<lambda>c. c @ [0, 0]) chunks)"
    "\<forall>b\<in>set bs. 0 \<le> b \<and> b \<le> 255"
    by auto
  let ?out = "c @ [0, 0] @ bs"
  have run: "rle_rows pixels width (row # rows) rle = Inr (rle @ ?out)"
    using c(1) bs(1) by (simp add: line_def)
  have dec: "rle_decode (?out @ rest) [] =
       map_option
         ((@) (map (\<lambda>row. py_slice pixels (row * width) (row * width + width)) (row # rows)))
         (rle_decode rest [])" for rest
  proof -
    have "rle_decode (?out @ rest) [] = rle_decode (c @ ([0, 0] @ bs @ rest)) []" by simp
    also have "\<dots> = rle_decode ([0, 0] @ bs @ rest) ([] @ line)" using c(2) by blast
    also have "\<dots> = map_option ((#) line) (rle_decode (bs @ rest) [])" by simp
    also have "\<dots> = map_option ((#) line)
        (map_option ((@) (map (\<lambda>row. py_slice pixels (row * width) (row * width + width)) rows))
           (rle_decode rest []))"
      using bs(2) by simp
    finally show ?thesis
      by (cases "rle_decode rest []") (simp_all add: line_def)
  qed
  have ch: "length (c # chunks) = length (row # rows)"
    "?out = concat (map (\<lambda>c. c @ [0, 0]) (c # chunks))"
    using bs(3) bs(4) by simp_all
  have rg: "\<forall>b\<in>set ?out. 0 \<le> b \<and> b \<le> 255"
    using c(3) bs(5) by auto
  from run dec ch rg show ?case by blast
qed

text \<open>
  Claim C1 (RLE round trip). For every indexed bitmap whose pixel list has
  \<open>width * height\<close> palette indices, each between 0 and 255, \<open>rle_compress\<close> returns a
  byte string (it raises nothing), and decoding that byte string gives back exactly the
  scanlines of the bitmap, row by row. The stream is the concatenation of \<open>height\<close>
  chunks, each closed by the end-of-line marker \<open>00 00\<close>, and every byte is in
  \<open>0..255\<close>. The bytes emitted for one run are the ones the spec words (\<open>run_bytes\<close>):
  a literal index byte for a single non-transparent pixel, a zero-byte escape in the
  short (at most 63) or long form otherwise; and a measured run is never longer than
  16383.
\<close>

theorem rle_round_trip:
  assumes "length pixels = width * height" and "\<forall>p\<in>set pixels. 0 \<le> p \<and> p \<le> 255"
  shows "(\<exists>bs chunks. rle_compress pixels width height = Inr bs \<and>
            rle_decode bs [] = Some (scanlines pixels width height) \<and>
            length chunks = height \<and> bs = concat (map (\<lambda>c. c @ [0, 0]) chunks) \<and>
            (\<forall>b\<in>set bs. 0 \<le> b \<and> b \<le> 255)) \<and>
         (\<forall>rle val run. 0 \<le> val \<and> val \<le> 255 \<and> 1 \<le> run \<and> run \<le> 16383 \<longrightarrow>
            emit_run rle val run = Inr (rle @ run_bytes val run)) \<and>
         (\<forall>line w i val r. scan_run line w i val 1 = Inr r \<longrightarrow> 1 \<le> r \<and> r \<le> 16383)"
proof (intro conjI)
  have rows: "\<forall>row\<in>set [0..<height]. row * width + width \<le> length pixels"
  proof
    fix row assume "row \<in> set [0..<height]"
    then have "Suc row \<le> height" by simp
    then have "Suc row * width \<le> height * width" by (rule mult_le_mono1)
    then show "row * width + width \<le> length pixels"
      using assms(1) by (simp add: mult.commute)
  qed
  from rle_rows_decode [OF rows assms(2), of "[]"]
  obtain bs chunks where bs: "rle_rows pixels width [0..<height] [] = Inr ([] @ bs)"
    "\<forall>rest. rle_decode (bs @ rest) [] =
       map_option
         ((@) (map (\<lambda>row. py_slice pixels (row * width) (row * width + width)) [0..<height]))
         (rle_decode rest [])"
    "length chunks = length [0..<height]" "bs = concat (map (\<lambda>c. c @ [0, 0]) chunks)"
    "\<forall>b\<in>set bs. 0 \<le> b \<and> b \<le> 255"
    by blast
  have "rle_decode bs [] = Some (scanlines pixels width height)"
    using bs(2) [rule_format, of "[]"] by (simp add: scanlines_def)
  with bs show "\<exists>bs chunks. rle_compress pixels width height = Inr bs \<and>
            rle_decode bs [] = Some (scanlines pixels width height) \<and>
            length chunks = height \<and> bs = concat (map (\<lambda>c. c @ [0, 0]) chunks) \<and>
            (\<forall>b\<in>set bs. 0 \<le> b \<and> b \<le> 255)"
    by (auto simp: rle_compress_def)
next
  show "\<forall>rle val run. 0 \<le> val \<and> val \<le> 255 \<and> 1 \<le> run \<and> run \<le> 16383 \<longrightarrow>
            emit_run rle val run = Inr (rle @ run_bytes val run)"
    using emit_run_bytes by blast
next
  show "\<forall>line w i val r. scan_run line w i val 1 = Inr r \<longrightarrow> 1 \<le> r \<and> r \<le> 16383"
    using scan_run_cap scan_run_ge by (metis one_le_numeral)
qed

theorem rle_round_trip_witness:
  "rle_compress [0, 0, 5, 7, 7, 7] 3 2 = Inr [0, 2, 5, 0, 0, 0, 131, 7, 0, 0] \<and>
   rle_decode [0, 2, 5, 0, 0, 0, 131, 7, 0, 0] [] = Some (scanlines [0, 0, 5, 7, 7, 7] 3 2) \<and>
   scanlines [0, 0, 5, 7, 7, 7] 3 2 = [[0, 0, 5], [7, 7, 7]]"
proof -
  have len: "length [0, 0, 5, 7, 7, 7 :: int] = 3 * 2" by simp
  have rng: "\<forall>p\<in>set [0, 0, 5, 7, 7, 7 :: int]. 0 \<le> p \<and> p \<le> 255" by simp
  have enc: "rle_compress [0, 0, 5, 7, 7, 7] 3 2 = Inr [0, 2, 5, 0, 0, 0, 131, 7, 0, 0]"
    by code_simp
  from rle_round_trip [OF len rng]
  obtain bs where "rle_compress [0, 0, 5, 7, 7, 7] 3 2 = Inr bs"
    "rle_decode bs [] = Some (scanlines [0, 0, 5, 7, 7, 7] 3 2)"
    by blast
  with enc have dec:
    "rle_decode [0, 2, 5, 0, 0, 0, 131, 7, 0, 0] [] = Some (scanlines [0, 0, 5, 7, 7, 7] 3 2)"
    by simp
  have sl: "scanlines [0, 0, 5, 7, 7, 7] 3 2 = [[0, 0, 5], [7, 7, 7]]"
    by code_simp
  from enc dec sl show ?thesis by blast
qed

section \<open>Timecodes: formatting, parsing and the round trip\<close>



































section \<open>The timeline slicer: partition and active cues\<close>

lemma sorted_points_props:
  "sorted (sorted_points offset cues)" "distinct (sorted_points offset cues)"
  "set (sorted_points offset cues)
     = (\<Union>c\<in>set cues. {start_ms c + offset, end_ms c + offset})"
  by (auto simp: sorted_points_def)

lemma points_nth_less:
  assumes "sorted ps" "distinct ps" "i < j" "j < length ps"
  shows "ps ! i < (ps ! j :: rat)"
proof -
  have "sorted_wrt (<) ps" using assms(1,2) by (simp add: strict_sorted_iff)
  then show ?thesis using assms(3,4) by (rule sorted_wrt_nth_less)
qed

lemma points_nth_mono:
  assumes "sorted ps" "i \<le> j" "j < length ps"
  shows "ps ! i \<le> (ps ! j :: rat)"
  using assms by (simp add: sorted_nth_mono)

lemma no_point_between:
  assumes "sorted ps" and "p \<in> set ps" and "i + 1 < length ps"
  shows "p \<le> ps ! i \<or> ps ! (i + 1) \<le> (p :: rat)"
proof -
  from assms(2) obtain k where k: "k < length ps" "ps ! k = p"
    by (auto simp: in_set_conv_nth)
  show ?thesis
  proof (cases "k \<le> i")
    case True
    then have "ps ! k \<le> ps ! i" using assms(1,3) by (intro points_nth_mono) simp_all
    with k show ?thesis by simp
  next
    case False
    then have "ps ! (i + 1) \<le> ps ! k" using assms(1) k by (intro points_nth_mono) simp_all
    with k show ?thesis by simp
  qed
qed

lemma bracket:
  fixes ps :: "rat list"
  assumes "ps ! k \<le> x" and "x < ps ! k'" and "k < k'"
  shows "\<exists>i. k \<le> i \<and> i < k' \<and> ps ! i \<le> x \<and> x < ps ! (i + 1)"
  using assms
proof (induction "k' - k" arbitrary: k)
  case 0
  then show ?case by simp
next
  case (Suc d)
  show ?case
  proof (cases "x < ps ! (k + 1)")
    case True
    with Suc.prems show ?thesis by auto
  next
    case False
    then have le: "ps ! (k + 1) \<le> x" by simp
    have "k + 1 \<noteq> k'" using False Suc.prems(2) by auto
    then have lt: "k + 1 < k'" using Suc.prems(3) by simp
    have "d = k' - (k + 1)" using Suc.hyps(2) by simp
    from Suc.hyps(1) [OF this le Suc.prems(2) lt]
    obtain i where "k + 1 \<le> i" "i < k'" "ps ! i \<le> x" "x < ps ! (i + 1)" by blast
    then show ?thesis by (intro exI [of _ i]) simp
  qed
qed

lemma slice_at_Some:
  assumes "slice_at offset cues ps i = Some s"
  shows "t_start s = ps ! i" "t_end s = ps ! (i + 1)" "ps ! i < ps ! (i + 1)"
    "active_cues s = sort_key cue_id
       (filter (\<lambda>c. start_ms c + offset \<le> (ps ! i + ps ! (i + 1)) / 2 \<and>
                     (ps ! i + ps ! (i + 1)) / 2 < end_ms c + offset) cues)"
    "filter (\<lambda>c. start_ms c + offset \<le> (ps ! i + ps ! (i + 1)) / 2 \<and>
                  (ps ! i + ps ! (i + 1)) / 2 < end_ms c + offset) cues \<noteq> []"
  using assms by (auto simp: slice_at_def Let_def split: if_splits)

lemma slice_at_active:
  assumes "ps ! i < ps ! (i + 1)" and "c \<in> set cues"
    and "start_ms c + offset \<le> (ps ! i + ps ! (i + 1)) / 2"
    and "(ps ! i + ps ! (i + 1)) / 2 < end_ms c + offset"
  shows "\<exists>s. slice_at offset cues ps i = Some s"
proof -
  have "filter (\<lambda>c. start_ms c + offset \<le> (ps ! i + ps ! (i + 1)) / 2 \<and>
                  (ps ! i + ps ! (i + 1)) / 2 < end_ms c + offset) cues \<noteq> []"
    using assms(2-4) by (auto simp: filter_empty_conv)
  with assms(1) show ?thesis by (simp add: slice_at_def Let_def)
qed

lemma set_map_filter_conv:
  "set (List.map_filter f xs) = {y. \<exists>x\<in>set xs. f x = Some y}"
  by (induction xs) (auto split: option.splits)

lemma set_time_slices:
  "set (time_slices offset cues)
     = {s. \<exists>i. i + 1 < length (sorted_points offset cues) \<and>
              slice_at offset cues (sorted_points offset cues) i = Some s}"
proof -
  have "i < n - 1 \<longleftrightarrow> i + 1 < n" for i n :: nat by auto
  then show ?thesis
    by (auto simp: time_slices_def Let_def set_map_filter_conv Bex_def)
qed

lemma time_slices_ordered:
  fixes cues :: "('i::linorder) cue list"
  shows "sorted_wrt (\<lambda>s s'. t_end s \<le> t_start s') (time_slices offset cues)"
proof -
  define ps where "ps = sorted_points offset cues"
  define f where "f = slice_at offset cues ps"
  have srt: "sorted ps" by (simp add: ps_def sorted_points_props)
  have rel: "t_end (the (f i)) \<le> t_start (the (f j))"
    if "i \<in> set (filter (\<lambda>i. f i \<noteq> None) [0..<length ps - 1])"
      and "j \<in> set (filter (\<lambda>i. f i \<noteq> None) [0..<length ps - 1])" and "i < j" for i j
  proof -
    from that obtain s s' where s: "f i = Some s" "f j = Some s'" and j: "j + 1 < length ps"
      by auto
    have "t_end s = ps ! (i + 1)" "t_start s' = ps ! j"
      using s slice_at_Some(1,2) unfolding f_def by blast+
    moreover have "ps ! (i + 1) \<le> ps ! j"
      using srt \<open>i < j\<close> j by (intro points_nth_mono) simp_all
    ultimately show ?thesis using s by simp
  qed
  have "sorted_wrt (<) (filter (\<lambda>i. f i \<noteq> None) [0..<length ps - 1])"
    by (intro sorted_wrt_filter) simp
  then have "sorted_wrt (\<lambda>i j. t_end (the (f i)) \<le> t_start (the (f j)))
      (filter (\<lambda>i. f i \<noteq> None) [0..<length ps - 1])"
    using rel by (rule sorted_wrt_mono_rel [rotated])
  then show ?thesis
    by (simp add: time_slices_def Let_def List.map_filter_def sorted_wrt_map
        ps_def [symmetric] f_def [symmetric])
qed

lemma slice_in_cue:
  fixes cues :: "('i::linorder) cue list"
  assumes "s \<in> set (time_slices offset cues)" and "c \<in> set (active_cues s)"
  shows "c \<in> set cues" "start_ms c + offset \<le> t_start s" "t_end s \<le> end_ms c + offset"
proof -
  define ps where "ps = sorted_points offset cues"
  from assms(1) obtain i where i: "i + 1 < length ps" "slice_at offset cues ps i = Some s"
    by (auto simp: set_time_slices ps_def)
  note sl = slice_at_Some [OF i(2)]
  have c: "c \<in> set cues" "start_ms c + offset \<le> (ps ! i + ps ! (i + 1)) / 2"
    "(ps ! i + ps ! (i + 1)) / 2 < end_ms c + offset"
    using assms(2) sl(4) by auto
  have srt: "sorted ps" by (simp add: ps_def sorted_points_props)
  have mem: "start_ms c + offset \<in> set ps" "end_ms c + offset \<in> set ps"
    using c(1) by (auto simp: ps_def sorted_points_props)
  show "c \<in> set cues" by fact
  from no_point_between [OF srt mem(1) i(1)] c(2) sl(3)
  show "start_ms c + offset \<le> t_start s" by (auto simp: sl(1))
  from no_point_between [OF srt mem(2) i(1)] c(3) sl(3)
  show "t_end s \<le> end_ms c + offset" by (auto simp: sl(2))
qed

lemma cue_in_slice:
  fixes cues :: "('i::linorder) cue list"
  assumes c: "c \<in> set cues" and x: "start_ms c + offset \<le> x" "x < end_ms c + offset"
  shows "\<exists>s\<in>set (time_slices offset cues). t_start s \<le> x \<and> x < t_end s"
proof -
  define ps where "ps = sorted_points offset cues"
  have srt: "sorted ps" and dist: "distinct ps"
    by (simp_all add: ps_def sorted_points_props)
  have mem: "start_ms c + offset \<in> set ps" "end_ms c + offset \<in> set ps"
    using c by (auto simp: ps_def sorted_points_props)
  then obtain k k' where k: "k < length ps" "ps ! k = start_ms c + offset"
    and k': "k' < length ps" "ps ! k' = end_ms c + offset"
    by (auto simp: in_set_conv_nth)
  have "ps ! k < ps ! k'" using x k k' by simp
  then have "k < k'"
    using points_nth_mono [OF srt, of k' k] k(1) by (cases "k < k'") auto
  from bracket [of ps k x k'] x k k' this
  obtain i where i: "k \<le> i" "i < k'" "ps ! i \<le> x" "x < ps ! (i + 1)" by auto
  have len: "i + 1 < length ps" using i(2) k'(1) by simp
  have lt: "ps ! i < ps ! (i + 1)" using i(3,4) by simp
  have "start_ms c + offset \<le> ps ! i"
    using points_nth_mono [OF srt i(1)] len k(2) by simp
  then have a: "start_ms c + offset \<le> (ps ! i + ps ! (i + 1)) / 2" using lt by simp
  have "ps ! (i + 1) \<le> end_ms c + offset"
    using points_nth_mono [OF srt, of "i + 1" k'] i(2) k' by simp
  then have b: "(ps ! i + ps ! (i + 1)) / 2 < end_ms c + offset" using lt by simp
  from slice_at_active [OF lt c a b]
  obtain s where s: "slice_at offset cues ps i = Some s" by blast
  then have "s \<in> set (time_slices offset cues)"
    using len by (auto simp: set_time_slices ps_def)
  moreover have "t_start s \<le> x" "x < t_end s"
    using slice_at_Some(1,2) [OF s] i(3,4) by simp_all
  ultimately show ?thesis by blast
qed

lemma slice_nonempty:
  fixes cues :: "('i::linorder) cue list"
  assumes "s \<in> set (time_slices offset cues)"
  shows "t_start s < t_end s" "active_cues s \<noteq> []"
proof -
  from assms obtain i where
    i: "slice_at offset cues (sorted_points offset cues) i = Some s"
    by (auto simp: set_time_slices)
  note sl = slice_at_Some [OF i]
  show "t_start s < t_end s" using sl(1,2,3) by simp
  have "length (active_cues s) \<noteq> 0"
    using sl(5) by (simp only: sl(4) length_sort length_0_conv not_False_eq_True)
  then show "active_cues s \<noteq> []" by auto
qed

text \<open>
  Claim C2 (the slices partition the cue intervals). For every list of cues and every
  timing offset, the union of the intervals \<open>[t_start, t_end)\<close> of the slices is the union
  of the cue intervals \<open>[start_ms + offset, end_ms + offset)\<close>; the slices come in time
  order and no two of them overlap (each one ends before the next one starts), and none
  is empty. The invariant \<open>end_ms > start_ms\<close> of the cues is not needed: a cue that
  violates it has an empty interval and is never active.
\<close>

theorem slices_partition:
  fixes cues :: "('i::linorder) cue list"
  shows "(\<Union>s\<in>set (time_slices offset cues). {t_start s ..< t_end s})
           = (\<Union>c\<in>set cues. {start_ms c + offset ..< end_ms c + offset}) \<and>
         (\<forall>i j. i < j \<and> j < length (time_slices offset cues) \<longrightarrow>
            t_end (time_slices offset cues ! i) \<le> t_start (time_slices offset cues ! j)) \<and>
         (\<forall>s\<in>set (time_slices offset cues). t_start s < t_end s)"
proof (intro conjI)
  show "(\<Union>s\<in>set (time_slices offset cues). {t_start s ..< t_end s})
           = (\<Union>c\<in>set cues. {start_ms c + offset ..< end_ms c + offset})"
  proof (intro equalityI subsetI)
    fix x assume "x \<in> (\<Union>s\<in>set (time_slices offset cues). {t_start s ..< t_end s})"
    then obtain s where s: "s \<in> set (time_slices offset cues)" "t_start s \<le> x" "x < t_end s"
      by auto
    from slice_nonempty(2) [OF s(1)] obtain c where c: "c \<in> set (active_cues s)"
      by (cases "active_cues s") auto
    from slice_in_cue [OF s(1) c] s(2,3)
    show "x \<in> (\<Union>c\<in>set cues. {start_ms c + offset ..< end_ms c + offset})"
      by force
  next
    fix x assume "x \<in> (\<Union>c\<in>set cues. {start_ms c + offset ..< end_ms c + offset})"
    then obtain c where "c \<in> set cues" "start_ms c + offset \<le> x" "x < end_ms c + offset"
      by auto
    from cue_in_slice [OF this]
    show "x \<in> (\<Union>s\<in>set (time_slices offset cues). {t_start s ..< t_end s})"
      by force
  qed
next
  show "\<forall>i j. i < j \<and> j < length (time_slices offset cues) \<longrightarrow>
            t_end (time_slices offset cues ! i) \<le> t_start (time_slices offset cues ! j)"
    using time_slices_ordered [of offset cues] by (auto simp: sorted_wrt_iff_nth_less)
next
  show "\<forall>s\<in>set (time_slices offset cues). t_start s < t_end s"
    using slice_nonempty(1) by blast
qed

theorem slices_partition_witness:
  "time_slices 100
     [\<lparr>cue_id = (1 :: nat), filename = ''a.png'', start_ms = 0, end_ms = 1000\<rparr>,
      \<lparr>cue_id = 2, filename = ''b.png'', start_ms = 2000, end_ms = 3000\<rparr>]
   = [\<lparr>t_start = 100, t_end = 1100, active_cues =
        [\<lparr>cue_id = 1, filename = ''a.png'', start_ms = 0, end_ms = 1000\<rparr>]\<rparr>,
      \<lparr>t_start = 2100, t_end = 3100, active_cues =
        [\<lparr>cue_id = 2, filename = ''b.png'', start_ms = 2000, end_ms = 3000\<rparr>]\<rparr>] \<and>
   (\<Union>s\<in>set (time_slices 100
        [\<lparr>cue_id = (1 :: nat), filename = ''a.png'', start_ms = 0, end_ms = 1000\<rparr>,
         \<lparr>cue_id = 2, filename = ''b.png'', start_ms = 2000, end_ms = 3000\<rparr>]).
      {t_start s ..< t_end s})
   = {100 ..< 1100} \<union> {2100 ..< 3100}"
proof -
  define cs where "cs = [\<lparr>cue_id = (1 :: nat), filename = ''a.png'', start_ms = 0, end_ms = 1000\<rparr>,
      \<lparr>cue_id = 2, filename = ''b.png'', start_ms = 2000, end_ms = 3000\<rparr>]"
  have ev: "time_slices 100 cs
   = [\<lparr>t_start = 100, t_end = 1100, active_cues =
        [\<lparr>cue_id = 1, filename = ''a.png'', start_ms = 0, end_ms = 1000\<rparr>]\<rparr>,
      \<lparr>t_start = 2100, t_end = 3100, active_cues =
        [\<lparr>cue_id = 2, filename = ''b.png'', start_ms = 2000, end_ms = 3000\<rparr>]\<rparr>]"
    unfolding cs_def by code_simp
  from slices_partition [of 100 cs, THEN conjunct1]
  have "(\<Union>s\<in>set (time_slices 100 cs). {t_start s ..< t_end s})
          = (\<Union>c\<in>set cs. {start_ms c + 100 ..< end_ms c + 100})" .
  also have "\<dots> = {100 ..< 1100} \<union> {2100 ..< 3100}" by (simp add: cs_def)
  finally show ?thesis using ev unfolding cs_def by blast
qed

text \<open>
  Claim C3 (active cues of a slice). For every slice the slicer produces, the active
  cues are exactly the cues \<open>c\<close> with \<open>start_ms c + offset \<le> mid < end_ms c + offset\<close>, where
  \<open>mid\<close> is the midpoint of the slice, and they are listed by ascending identifier (the
  stable sort of the cues that pass the test, in input order). Scenario A: the cues
  A = [0, 1000) and B = [500, 1500) give the slices [0, 500) with A, [500, 1000) with A
  and B, and [1000, 1500) with B.
\<close>

theorem slice_active_cues:
  fixes cues :: "('i::linorder) cue list"
  shows "(\<forall>s\<in>set (time_slices offset cues).
            set (active_cues s)
              = {c \<in> set cues. start_ms c + offset \<le> (t_start s + t_end s) / 2 \<and>
                               (t_start s + t_end s) / 2 < end_ms c + offset} \<and>
            active_cues s
              = sort_key cue_id
                  (filter (\<lambda>c. start_ms c + offset \<le> (t_start s + t_end s) / 2 \<and>
                                (t_start s + t_end s) / 2 < end_ms c + offset) cues) \<and>
            sorted (map cue_id (active_cues s))) \<and>
         time_slices 0
           [\<lparr>cue_id = (0 :: rat), filename = ''A.png'', start_ms = 0, end_ms = 1000\<rparr>,
            \<lparr>cue_id = 500, filename = ''B.png'', start_ms = 500, end_ms = 1500\<rparr>]
         = [\<lparr>t_start = 0, t_end = 500, active_cues =
              [\<lparr>cue_id = 0, filename = ''A.png'', start_ms = 0, end_ms = 1000\<rparr>]\<rparr>,
            \<lparr>t_start = 500, t_end = 1000, active_cues =
              [\<lparr>cue_id = 0, filename = ''A.png'', start_ms = 0, end_ms = 1000\<rparr>,
               \<lparr>cue_id = 500, filename = ''B.png'', start_ms = 500, end_ms = 1500\<rparr>]\<rparr>,
            \<lparr>t_start = 1000, t_end = 1500, active_cues =
              [\<lparr>cue_id = 500, filename = ''B.png'', start_ms = 500, end_ms = 1500\<rparr>]\<rparr>]"
proof (intro conjI ballI)
  fix s assume "s \<in> set (time_slices offset cues)"
  then obtain i where
    i: "slice_at offset cues (sorted_points offset cues) i = Some s"
    by (auto simp: set_time_slices)
  note sl = slice_at_Some [OF i]
  show eq: "active_cues s
              = sort_key cue_id
                  (filter (\<lambda>c. start_ms c + offset \<le> (t_start s + t_end s) / 2 \<and>
                                (t_start s + t_end s) / 2 < end_ms c + offset) cues)"
    by (simp only: sl(1,2,4))
  show "set (active_cues s)
              = {c \<in> set cues. start_ms c + offset \<le> (t_start s + t_end s) / 2 \<and>
                               (t_start s + t_end s) / 2 < end_ms c + offset}"
    by (simp only: eq set_sort set_filter)
  show "sorted (map cue_id (active_cues s))"
    by (simp only: eq sorted_sort_key)
next
  show "time_slices 0
           [\<lparr>cue_id = (0 :: rat), filename = ''A.png'', start_ms = 0, end_ms = 1000\<rparr>,
            \<lparr>cue_id = 500, filename = ''B.png'', start_ms = 500, end_ms = 1500\<rparr>]
         = [\<lparr>t_start = 0, t_end = 500, active_cues =
              [\<lparr>cue_id = 0, filename = ''A.png'', start_ms = 0, end_ms = 1000\<rparr>]\<rparr>,
            \<lparr>t_start = 500, t_end = 1000, active_cues =
              [\<lparr>cue_id = 0, filename = ''A.png'', start_ms = 0, end_ms = 1000\<rparr>,
               \<lparr>cue_id = 500, filename = ''B.png'', start_ms = 500, end_ms = 1500\<rparr>]\<rparr>,
            \<lparr>t_start = 1000, t_end = 1500, active_cues =
              [\<lparr>cue_id = 500, filename = ''B.png'', start_ms = 500, end_ms = 1500\<rparr>]\<rparr>]"
    by code_simp
qed

theorem slice_active_cues_witness:
  "time_slices 0
     [\<lparr>cue_id = (2 :: nat), filename = ''x.png'', start_ms = 0, end_ms = 10\<rparr>,
      \<lparr>cue_id = 1, filename = ''y.png'', start_ms = 5, end_ms = 15\<rparr>] ! 1
   = \<lparr>t_start = 5, t_end = 10, active_cues =
        [\<lparr>cue_id = 1, filename = ''y.png'', start_ms = 5, end_ms = 15\<rparr>,
         \<lparr>cue_id = 2, filename = ''x.png'', start_ms = 0, end_ms = 10\<rparr>]\<rparr> \<and>
   set [\<lparr>cue_id = (1 :: nat), filename = ''y.png'', start_ms = 5, end_ms = 15\<rparr>,
        \<lparr>cue_id = 2, filename = ''x.png'', start_ms = 0, end_ms = 10\<rparr>]
   = {c \<in> set [\<lparr>cue_id = (2 :: nat), filename = ''x.png'', start_ms = 0, end_ms = 10\<rparr>,
                \<lparr>cue_id = 1, filename = ''y.png'', start_ms = 5, end_ms = 15\<rparr>].
        start_ms c + 0 \<le> (5 + 10) / 2 \<and> (5 + 10) / 2 < end_ms c + 0}"
proof -
  define cs where "cs = [\<lparr>cue_id = (2 :: nat), filename = ''x.png'', start_ms = 0, end_ms = 10\<rparr>,
      \<lparr>cue_id = 1, filename = ''y.png'', start_ms = 5, end_ms = 15\<rparr>]"
  define s where "s = \<lparr>t_start = 5, t_end = 10, active_cues =
        [\<lparr>cue_id = (1 :: nat), filename = ''y.png'', start_ms = 5, end_ms = 15\<rparr>,
         \<lparr>cue_id = 2, filename = ''x.png'', start_ms = 0, end_ms = 10\<rparr>]\<rparr>"
  have ev: "time_slices 0 cs
     = [\<lparr>t_start = 0, t_end = 5, active_cues =
          [\<lparr>cue_id = 2, filename = ''x.png'', start_ms = 0, end_ms = 10\<rparr>]\<rparr>,
        s,
        \<lparr>t_start = 10, t_end = 15, active_cues =
          [\<lparr>cue_id = 1, filename = ''y.png'', start_ms = 5, end_ms = 15\<rparr>]\<rparr>]"
    unfolding cs_def s_def by code_simp
  then have mem: "s \<in> set (time_slices 0 cs)" by simp
  from slice_active_cues [of 0 cs, THEN conjunct1, rule_format, OF mem]
  have "set (active_cues s)
          = {c \<in> set cs. start_ms c + 0 \<le> (t_start s + t_end s) / 2 \<and>
                          (t_start s + t_end s) / 2 < end_ms c + 0}"
    by blast
  then have "set [\<lparr>cue_id = (1 :: nat), filename = ''y.png'', start_ms = 5, end_ms = 15\<rparr>,
        \<lparr>cue_id = 2, filename = ''x.png'', start_ms = 0, end_ms = 10\<rparr>]
     = {c \<in> set cs. start_ms c + 0 \<le> (5 + 10) / 2 \<and> (5 + 10) / 2 < end_ms c + 0}"
    by (simp add: s_def)
  moreover have "time_slices 0 cs ! 1 = s" by (simp add: ev)
  ultimately show ?thesis unfolding cs_def s_def by blast
qed

section \<open>The compositor: bounding box, alignment and guard\<close>

lemma filter_upt_range:
  assumes "a \<le> b" and "b \<le> n"
  shows "filter (\<lambda>x. a \<le> x \<and> x < b) [0..<n] = [a..<b]"
proof -
  have "[0..<n] = [0..<a] @ [a..<b] @ [b..<n]"
    using assms by (metis le_add_diff_inverse upt_add_eq_append zero_le le_trans)
  moreover have "filter (\<lambda>x. a \<le> x \<and> x < b) [0..<a] = []" by (simp add: filter_empty_conv)
  moreover have "filter (\<lambda>x. a \<le> x \<and> x < b) [b..<n] = []" by (simp add: filter_empty_conv)
  moreover have "filter (\<lambda>x. a \<le> x \<and> x < b) [a..<b] = [a..<b]" by (simp add: filter_id_conv)
  ultimately show ?thesis by simp
qed

lemma getbbox_block:
  assumes "x0 < x1" "x1 \<le> w" "y0 < y1" "y1 \<le> h"
  shows "getbbox (block_canvas w h x0 y0 x1 y1) = Some (x0, y0, x1, y1)"
proof -
  let ?img = "block_canvas w h x0 y0 x1 y1"
  have a: "alpha (px ?img x y) \<noteq> 0 \<longleftrightarrow> x0 \<le> x \<and> x < x1 \<and> y0 \<le> y \<and> y < y1" for x y
    by (simp add: block_canvas_def alpha_def)
  have c: "(\<exists>y\<in>set [0..<img_h ?img]. alpha (px ?img x y) \<noteq> 0) \<longleftrightarrow> x0 \<le> x \<and> x < x1" for x
    unfolding a using assms(3,4) by (auto simp: block_canvas_def intro: bexI [of _ y0])
  have r: "(\<exists>x\<in>set [0..<img_w ?img]. alpha (px ?img x y) \<noteq> 0) \<longleftrightarrow> y0 \<le> y \<and> y < y1" for y
    unfolding a using assms(1,2) by (auto simp: block_canvas_def intro: bexI [of _ x0])
  have cols: "filter (\<lambda>x. \<exists>y\<in>set [0..<img_h ?img]. alpha (px ?img x y) \<noteq> 0) [0..<img_w ?img]
               = [x0..<x1]"
    unfolding c using filter_upt_range [of x0 x1 w] assms(1,2) by (simp add: block_canvas_def)
  have rows: "filter (\<lambda>y. \<exists>x\<in>set [0..<img_w ?img]. alpha (px ?img x y) \<noteq> 0) [0..<img_h ?img]
               = [y0..<y1]"
    unfolding r using filter_upt_range [of y0 y1 h] assms(3,4) by (simp add: block_canvas_def)
  have hl: "hd [x0..<x1] = x0" "last [x0..<x1] + 1 = x1" "hd [y0..<y1] = y0"
    "last [y0..<y1] + 1 = y1" "[x0..<x1] \<noteq> []" "[y0..<y1] \<noteq> []"
    using assms(1,3) by (simp_all add: last_upt)
  show ?thesis
    unfolding getbbox_def Let_def cols rows using hl by simp
qed

lemma sorted_hd_le_last:
  fixes xs :: "nat list"
  assumes "sorted xs" "xs \<noteq> []"
  shows "hd xs \<le> last xs"
proof -
  have "last xs \<in> set xs" using assms(2) by simp
  then show ?thesis using assms by (cases xs) auto
qed

lemma getbbox_bounds:
  assumes "getbbox img = Some (l, u, r, b)"
  shows "l < r" "r \<le> img_w img" "u < b" "b \<le> img_h img"
proof -
  define cols where
    "cols = filter (\<lambda>x. \<exists>y\<in>set [0..<img_h img]. alpha (px img x y) \<noteq> 0) [0..<img_w img]"
  define rows where
    "rows = filter (\<lambda>y. \<exists>x\<in>set [0..<img_w img]. alpha (px img x y) \<noteq> 0) [0..<img_h img]"
  from assms have ne: "cols \<noteq> []" "rows \<noteq> []"
    and eq: "l = hd cols" "u = hd rows" "r = last cols + 1" "b = last rows + 1"
    unfolding getbbox_def Let_def cols_def [symmetric] rows_def [symmetric]
    by (auto split: if_splits)
  have sc: "sorted cols" "sorted rows"
    unfolding cols_def rows_def by (rule sorted_wrt_filter, simp)+
  have "last cols \<in> set cols" "last rows \<in> set rows" using ne by simp_all
  then have lt: "last cols < img_w img" "last rows < img_h img"
    by (simp_all add: cols_def rows_def)
  show "l < r" using sorted_hd_le_last [OF sc(1) ne(1)] eq by simp
  show "u < b" using sorted_hd_le_last [OF sc(2) ne(2)] eq by simp
  show "r \<le> img_w img" using lt eq by simp
  show "b \<le> img_h img" using lt eq by simp
qed

lemma getbbox_nonempty:
  assumes "x < img_w img" "y < img_h img" "alpha (px img x y) \<noteq> 0"
  shows "\<exists>l u r b. getbbox img = Some (l, u, r, b)"
proof -
  have "x \<in> set (filter (\<lambda>x. \<exists>y\<in>set [0..<img_h img]. alpha (px img x y) \<noteq> 0) [0..<img_w img])"
    using assms by auto
  moreover have
    "y \<in> set (filter (\<lambda>y. \<exists>x\<in>set [0..<img_w img]. alpha (px img x y) \<noteq> 0) [0..<img_h img])"
    using assms by auto
  ultimately show ?thesis
    unfolding getbbox_def Let_def by (auto simp: filter_empty_conv)
qed

lemma align_axis:
  fixes lo hi size :: int
  assumes "0 \<le> lo" "lo < hi" "hi \<le> size"
  defines "lo' \<equiv> max 0 (if lo mod 2 \<noteq> 0 then lo - 1 else lo)"
    and "hi' \<equiv> min size (if hi mod 2 \<noteq> 0 then hi + 1 else hi)"
  shows "0 \<le> lo'" "lo' \<le> lo" "hi \<le> hi'" "hi' \<le> size" "even lo'"
    "even size \<Longrightarrow> even (hi' - lo')" "odd (hi' - lo') \<longleftrightarrow> odd size \<and> hi = size"
proof -
  have "1 \<le> lo" if "odd lo" using that assms(1) by (cases "lo = 0") auto
  then have lo': "lo' = (if odd lo then lo - 1 else lo)"
    using assms(1) by (auto simp: lo'_def odd_iff_mod_2_eq_one)
  show "0 \<le> lo'" "lo' \<le> lo" using assms(1) by (auto simp: lo'_def)
  show "hi \<le> hi'" "hi' \<le> size" using assms(3) by (auto simp: hi'_def)
  show el: "even lo'" by (simp add: lo')
  have hi': "hi' = (if odd hi then (if hi = size then hi else hi + 1) else hi)"
    using assms(3) by (auto simp: hi'_def odd_iff_mod_2_eq_one)
  show "odd (hi' - lo') \<longleftrightarrow> odd size \<and> hi = size"
    using el by (auto simp: hi')
  then show "even size \<Longrightarrow> even (hi' - lo')" by blast
qed

lemma composite_box:
  assumes vis: "x < img_w canvas" "y < img_h canvas" "alpha (px canvas x y) \<noteq> 0"
  shows "\<exists>left upper w h img.
           create_composite_image canvas = ((left, upper, w, h), Some img) \<and>
           0 \<le> left \<and> 0 \<le> upper \<and> 0 < w \<and> 0 < h \<and>
           left + w \<le> int (img_w canvas) \<and> upper + h \<le> int (img_h canvas) \<and>
           even left \<and> even upper \<and>
           (even (img_w canvas) \<longrightarrow> even w) \<and> (even (img_h canvas) \<longrightarrow> even h) \<and>
           img_w img = nat w \<and> img_h img = nat h"
proof -
  from getbbox_nonempty [OF vis] obtain l u r b where bb: "getbbox canvas = Some (l, u, r, b)"
    by blast
  note gb = getbbox_bounds [OF bb]
  define left where "left = max 0 (if int l mod 2 \<noteq> 0 then int l - 1 else int l)"
  define right where
    "right = min (int (img_w canvas)) (if int r mod 2 \<noteq> 0 then int r + 1 else int r)"
  define upper where "upper = max 0 (if int u mod 2 \<noteq> 0 then int u - 1 else int u)"
  define lower where
    "lower = min (int (img_h canvas)) (if int b mod 2 \<noteq> 0 then int b + 1 else int b)"
  have ax: "0 \<le> left" "left \<le> int l" "int r \<le> right" "right \<le> int (img_w canvas)"
    "even left" "even (int (img_w canvas)) \<Longrightarrow> even (right - left)"
    using align_axis [of "int l" "int r" "int (img_w canvas)"] gb(1,2)
    unfolding left_def right_def by simp_all
  have ay: "0 \<le> upper" "upper \<le> int u" "int b \<le> lower" "lower \<le> int (img_h canvas)"
    "even upper" "even (int (img_h canvas)) \<Longrightarrow> even (lower - upper)"
    using align_axis [of "int u" "int b" "int (img_h canvas)"] gb(3,4)
    unfolding upper_def lower_def by simp_all
  have al: "align_box (int (img_w canvas)) (int (img_h canvas)) (int l, int u, int r, int b)
              = (left, upper, right, lower)"
    by (simp add: align_box_def Let_def left_def right_def upper_def lower_def)
  have res: "create_composite_image canvas
      = ((left, upper, right - left, lower - upper),
         Some (anti_crop_guard (crop canvas (left, upper, right, lower))))"
    by (simp add: create_composite_image_def bb al Let_def)
  have sz: "img_w (anti_crop_guard img) = img_w img" "img_h (anti_crop_guard img) = img_h img"
    for img
    by (simp_all add: anti_crop_guard_def Let_def guard_corner_def set_px_def)
  have "img_w (anti_crop_guard (crop canvas (left, upper, right, lower))) = nat (right - left)"
    "img_h (anti_crop_guard (crop canvas (left, upper, right, lower))) = nat (lower - upper)"
    by (simp_all add: sz crop_def)
  moreover have "0 < right - left" "0 < lower - upper"
    using ax(2,3) ay(2,3) gb(1,3) by simp_all
  ultimately show ?thesis
    using res ax ay by (intro exI conjI) (assumption | simp)+
qed

lemma guard_corner_alpha:
  "alpha (px (guard_corner img a b) x y) = alpha (px img x y)"
  by (simp add: guard_corner_def set_px_def guard_def alpha_def)

lemma anti_crop_guard_alpha:
  "alpha (px (anti_crop_guard img) x y) = alpha (px img x y)"
  by (simp add: anti_crop_guard_def Let_def guard_corner_alpha)

lemma guard_corner_opaque:
  "alpha (px img x y) \<noteq> 0 \<Longrightarrow> px (guard_corner img a b) x y = px img x y"
  by (auto simp: guard_corner_def set_px_def)

lemma anti_crop_guard_opaque:
  assumes "alpha (px img x y) \<noteq> 0"
  shows "px (anti_crop_guard img) x y = px img x y"
  using assms
  by (simp add: anti_crop_guard_def Let_def guard_corner_opaque guard_corner_alpha)

lemma composite_block:
  assumes "x0 < x1" "x1 \<le> w" "y0 < y1" "y1 \<le> h"
  shows "create_composite_image (block_canvas w h x0 y0 x1 y1)
           = (case align_box (int w) (int h) (int x0, int y0, int x1, int y1) of
                (left, upper, right, lower) \<Rightarrow>
                  ((left, upper, right - left, lower - upper),
                   Some (anti_crop_guard
                           (crop (block_canvas w h x0 y0 x1 y1) (left, upper, right, lower)))))"
proof -
  have wh: "img_w (block_canvas w h x0 y0 x1 y1) = w" "img_h (block_canvas w h x0 y0 x1 y1) = h"
    by (simp_all add: block_canvas_def)
  show ?thesis
    by (simp add: create_composite_image_def getbbox_block [OF assms] wh Let_def
        split: prod.splits)
qed

text \<open>
  Claim C4 (even size inside the canvas) does not hold for a canvas with an odd side. On
  a canvas of 1920 by 803 pixels (the resolution \<^verbatim>\<open>_write_bdn_xml\<close> names as a supported
  non-standard one) with an opaque block over the columns 100 to 199 and the rows 700 to
  802, the bottom edge 803 is rounded up to 804 and clamped back to 803: the function
  returns the box \<open>(x, y, w, h) = (100, 700, 100, 103)\<close>, whose height is odd. Lemma
  \<open>composite_box\<close> above is what holds: the box always lies inside the canvas with an even
  origin, and a side is even whenever that side of the canvas is even.
\<close>

theorem composite_odd_canvas_height:
  "fst (create_composite_image (block_canvas 1920 803 100 700 200 803))
     = (100, 700, 100, 103)"
proof -
  have "align_box 1920 803 (100, 700, 200, 803) = (100, 700, 200, 803)"
    by (simp add: align_box_def)
  then show ?thesis
    using composite_block [of 100 200 1920 700 803 803] by simp
qed

text \<open>
  Claim C7 (anti-crop guard) does not hold: the guard colour the code writes is
  \<open>(0, 0, 0, 0)\<close>, so a fully transparent corner stays fully transparent. On a canvas of
  1920 by 1080 pixels with an opaque block over the pixels (101, 101) to (108, 108) the
  function returns the box \<open>(100, 100, 10, 10)\<close> (scenario B of the spec), and all four
  corners of the image it writes still have alpha 0. Lemma \<open>anti_crop_guard_alpha\<close> above
  says it for every image: the guard changes no alpha value; \<open>anti_crop_guard_opaque\<close> is
  the part of the claim that holds, a pixel with non-zero alpha is left unchanged.
\<close>

theorem guard_corners_stay_transparent:
  "\<exists>img. create_composite_image (block_canvas 1920 1080 101 101 109 109)
            = ((100, 100, 10, 10), Some img) \<and>
         img_w img = 10 \<and> img_h img = 10 \<and>
         px img 0 0 = (0, 0, 0, 0) \<and> px img 9 0 = (0, 0, 0, 0) \<and>
         px img 0 9 = (0, 0, 0, 0) \<and> px img 9 9 = (0, 0, 0, 0) \<and>
         px img 5 5 = (255, 255, 255, 255)"
proof -
  have al: "align_box 1920 1080 (101, 101, 109, 109) = (100, 100, 110, 110)"
    by (simp add: align_box_def)
  define img where
    "img = anti_crop_guard (crop (block_canvas 1920 1080 101 101 109 109) (100, 100, 110, 110))"
  have res: "create_composite_image (block_canvas 1920 1080 101 101 109 109)
               = ((100, 100, 10, 10), Some img)"
    using composite_block [of 101 109 1920 101 109 1080] al by (simp add: img_def)
  have px: "px img 0 0 = (0, 0, 0, 0)" "px img 9 0 = (0, 0, 0, 0)"
    "px img 0 9 = (0, 0, 0, 0)" "px img 9 9 = (0, 0, 0, 0)" "px img 5 5 = (255, 255, 255, 255)"
    "img_w img = 10" "img_h img = 10"
    by (simp_all add: img_def anti_crop_guard_def Let_def guard_corner_def set_px_def
        guard_def alpha_def crop_def block_canvas_def)
  from res px show ?thesis by blast
qed

section \<open>Quantization: the palette and the indexed pixels\<close>

lemma fold_upd_inv:
  assumes "\<forall>ic\<in>set ics. Q (snd ic) (fst ic)" and "\<forall>p i. m p = Some i \<longrightarrow> Q p i"
    and "fold (\<lambda>ic m. m(snd ic \<mapsto> fst ic)) ics m p = Some i"
  shows "Q p i"
  using assms
proof (induction ics arbitrary: m)
  case Nil
  then show ?case by simp
next
  case (Cons ic ics)
  have "\<forall>p i. (m(snd ic \<mapsto> fst ic)) p = Some i \<longrightarrow> Q p i"
    using Cons.prems(1,2) by auto
  moreover have "fold (\<lambda>ic m. m(snd ic \<mapsto> fst ic)) ics (m(snd ic \<mapsto> fst ic)) p = Some i"
    using Cons.prems(3) by (simp only: fold.simps comp_apply)
  moreover have "\<forall>ic\<in>set ics. Q (snd ic) (fst ic)" using Cons.prems(1) by simp
  ultimately show ?case using Cons.IH by blast
qed

lemma fold_upd_dom:
  "dom (fold (\<lambda>ic m. m(snd ic \<mapsto> fst ic)) ics m) = dom m \<union> snd ` set ics"
  by (induction ics arbitrary: m) auto

lemma color_map_Some:
  assumes "color_map pal p = Some i"
  shows "i < length pal" "pal ! i = p"
proof -
  have "\<forall>ic\<in>set (List.enumerate 0 pal). fst ic < length pal \<and> pal ! fst ic = snd ic"
    by (auto simp: in_set_enumerate_eq)
  from fold_upd_inv [where Q = "\<lambda>c i. i < length pal \<and> pal ! i = c", OF this _
      assms [unfolded color_map_def]]
  show "i < length pal" "pal ! i = p" by simp_all
qed

lemma color_map_dom: "dom (color_map pal) = set pal"
proof -
  have "snd ` set (List.enumerate 0 pal) = set (map snd (List.enumerate 0 pal))"
    by (simp only: set_map)
  also have "\<dots> = set pal" by (simp only: map_snd_enumerate)
  finally show ?thesis by (simp add: color_map_def fold_upd_dom)
qed

lemma get_index_bound: "pal \<noteq> [] \<Longrightarrow> get_index (color_map pal) p < length pal"
  by (auto simp: get_index_def dest: color_map_Some(1) split: option.splits)

lemma get_index_member:
  assumes "p \<in> set pal"
  shows "pal ! get_index (color_map pal) p = p"
proof -
  from assms have "p \<in> dom (color_map pal)" by (simp add: color_map_dom)
  then obtain i where i: "color_map pal p = Some i" by auto
  with color_map_Some(2) [OF i] show ?thesis by (simp add: get_index_def)
qed

lemma get_index_dropped:
  assumes "p \<notin> set pal"
  shows "get_index (color_map pal) p = 0"
proof -
  from assms have "p \<notin> dom (color_map pal)" by (simp add: color_map_dom)
  then have "color_map pal p = None" by auto
  then show ?thesis by (simp add: get_index_def)
qed

lemma palette_rgba_of_props:
  "length (palette_rgba_of colors) \<le> 256" "palette_rgba_of colors \<noteq> []"
  "palette_rgba_of colors ! 0 = (0, 0, 0, 0)"
  by (simp_all add: palette_rgba_of_def Let_def)

lemma quantize_colors_length: "length (snd (quantize_colors gc img)) = length img"
  by (simp add: quantize_colors_def Let_def)

lemma to_yuv_transparent: "to_yuv (0, 0, 0, 0) = (16, 128, 128, 0)"
  by (simp add: to_yuv_def py_trunc_def)

text \<open>
  Claim C8 (palette and index invariant). For every image, and whatever
  \<^verbatim>\<open>getcolors\<close> returns, the quantizer gives a palette of at least one and at most 256
  entries whose entry 0 is the fully transparent colour (\<open>(0, 0, 0, 0)\<close> in the RGBA
  palette, \<open>(16, 128, 128, 0)\<close> after the conversion), and one index per pixel, each
  smaller than the length of the palette. A pixel whose colour is not in the palette has
  index 0; a pixel whose colour is in the palette has an index that leads back to it.
\<close>

theorem quantize_palette_invariant:
  "\<exists>palette_rgba palette indexed pixels.
     quantize_rgba gc img = (palette_rgba, indexed, pixels) \<and>
     quantize_image gc img = (palette, indexed) \<and>
     palette = map to_yuv palette_rgba \<and>
     0 < length palette \<and> length palette \<le> 256 \<and>
     palette_rgba ! 0 = (0, 0, 0, 0) \<and> palette ! 0 = (16, 128, 128, 0) \<and>
     length indexed = length img \<and> length pixels = length img \<and>
     (\<forall>i\<in>set indexed. i < length palette) \<and>
     (\<forall>k<length img. pixels ! k \<notin> set palette_rgba \<longrightarrow> indexed ! k = 0) \<and>
     (\<forall>k<length img. pixels ! k \<in> set palette_rgba \<longrightarrow>
        palette_rgba ! (indexed ! k) = pixels ! k)"
proof -
  obtain colors pixels where qc: "quantize_colors gc img = (colors, pixels)"
    by (cases "quantize_colors gc img")
  define pal where "pal = palette_rgba_of colors"
  define indexed where "indexed = map (get_index (color_map pal)) pixels"
  note pp = palette_rgba_of_props [of colors, folded pal_def]
  have len: "length pixels = length img"
    using quantize_colors_length [of gc img] qc by simp
  have r: "quantize_rgba gc img = (pal, indexed, pixels)"
    by (simp add: quantize_rgba_def qc Let_def pal_def indexed_def)
  have i: "quantize_image gc img = (map to_yuv pal, indexed)"
    by (simp add: quantize_image_def r)
  have p0: "map to_yuv pal ! 0 = (16, 128, 128, 0)"
    using pp(2,3) by (simp add: to_yuv_transparent)
  have b: "\<forall>i\<in>set indexed. i < length (map to_yuv pal)"
    using get_index_bound [OF pp(2)] by (auto simp: indexed_def)
  have d: "\<forall>k<length img. pixels ! k \<notin> set pal \<longrightarrow> indexed ! k = 0"
    using len by (simp add: indexed_def get_index_dropped)
  have m: "\<forall>k<length img. pixels ! k \<in> set pal \<longrightarrow> pal ! (indexed ! k) = pixels ! k"
    using len by (simp add: indexed_def get_index_member)
  have l: "0 < length (map to_yuv pal)" "length (map to_yuv pal) \<le> 256"
    "length indexed = length img"
    using pp(1,2) len by (simp_all add: indexed_def)
  from r i p0 b d m l pp(3) len show ?thesis by blast
qed

lemma getcolors_first_contract: "pil_getcolors getcolors_first"
  unfolding pil_getcolors_def
proof (intro allI)
  fix pixels :: "pixel list" and maxcolors :: nat
  define cs where "cs = map (\<lambda>c. (count_list pixels c, c)) (remdups pixels)"
  have ms: "map snd cs = remdups pixels" by (simp add: cs_def comp_def)
  have card: "card (set pixels) = length (remdups pixels)"
    by (simp add: length_remdups_card_conv)
  show "if maxcolors < card (set pixels) then getcolors_first pixels maxcolors = None
        else (\<exists>cs. getcolors_first pixels maxcolors = Some cs \<and> distinct (map snd cs) \<and>
                set (map snd cs) = set pixels \<and>
                (\<forall>nc\<in>set cs. fst nc = count_list pixels (snd nc)))"
  proof (cases "maxcolors < card (set pixels)")
    case True
    then show ?thesis by (simp add: getcolors_first_def Let_def card)
  next
    case False
    then have "getcolors_first pixels maxcolors = Some cs"
      by (simp add: getcolors_first_def Let_def card cs_def)
    moreover have "distinct (map snd cs)" "set (map snd cs) = set pixels"
      by (simp_all only: ms distinct_remdups set_remdups)
    moreover have "\<forall>nc\<in>set cs. fst nc = count_list pixels (snd nc)"
      by (auto simp: cs_def)
    ultimately show ?thesis using False by auto
  qed
qed

theorem quantize_palette_invariant_witness:
  "quantize_rgba getcolors_first [(0, 0, 0, 0), (255, 255, 255, 255), (0, 0, 0, 0), (10, 20, 30, 128)]
     = ([(0, 0, 0, 0), (255, 255, 255, 255), (10, 20, 30, 128)], [0, 1, 0, 2],
        [(0, 0, 0, 0), (255, 255, 255, 255), (0, 0, 0, 0), (10, 20, 30, 128)]) \<and>
   quantize_image getcolors_first
       [(0, 0, 0, 0), (255, 255, 255, 255), (0, 0, 0, 0), (10, 20, 30, 128)]
     = ([(16, 128, 128, 0), (235, 128, 128, 255), (31, 122, 133, 128)], [0, 1, 0, 2]) \<and>
   (2 :: nat) < length [(16, 128, 128, 0), (235, 128, 128, 255), (31, 122, 133, 128 :: int)]"
proof -
  define img :: "pixel list" where
    "img = [(0, 0, 0, 0), (255, 255, 255, 255), (0, 0, 0, 0), (10, 20, 30, 128)]"
  have r: "quantize_rgba getcolors_first img
     = ([(0, 0, 0, 0), (255, 255, 255, 255), (10, 20, 30, 128)], [0, 1, 0, 2], img)"
    unfolding img_def by code_simp
  have i: "quantize_image getcolors_first img
     = ([(16, 128, 128, 0), (235, 128, 128, 255), (31, 122, 133, 128)], [0, 1, 0, 2])"
    unfolding img_def by code_simp
  from quantize_palette_invariant [of getcolors_first img]
  obtain palette indexed where
    q: "quantize_image getcolors_first img = (palette, indexed)"
    and b: "\<forall>i\<in>set indexed. i < length palette"
    by blast
  from q i have "palette = [(16, 128, 128, 0), (235, 128, 128, 255), (31, 122, 133, 128)]"
    "indexed = [0, 1, 0, 2]" by simp_all
  with b have "(2 :: nat) < length [(16, 128, 128, 0), (235, 128, 128, 255), (31, 122, 133, 128 :: int)]"
    by simp
  with r i show ?thesis unfolding img_def by blast
qed

lemma tier1_colors:
  assumes gc: "pil_getcolors gc" and card: "card (set img) \<le> 256"
  shows "\<exists>cs. quantize_colors gc img = (cs, img) \<and> distinct (map snd cs) \<and>
           set (map snd cs) = set img"
proof -
  from gc [unfolded pil_getcolors_def, rule_format, of 256 img] card
  obtain cs where cs: "gc img 256 = Some cs" "distinct (map snd cs)"
    "set (map snd cs) = set img"
    by (auto split: if_splits)
  show ?thesis
  proof (cases "img = []")
    case False
    then have "cs \<noteq> []" using cs(3) by auto
    then have "quantize_colors gc img = (cs, img)"
      by (simp add: quantize_colors_def Let_def cs(1) not_colors_def)
    with cs show ?thesis by blast
  next
    case True
    then have e: "cs = []" using cs(3) by simp
    have "gc [] n = Some []" for n
      using gc [unfolded pil_getcolors_def, rule_format, of n "[]"] by auto
    then have "quantize_colors gc [] = ([], [])"
      by (simp add: quantize_colors_def Let_def not_colors_def)
    with True e cs show ?thesis by simp
  qed
qed

lemma tier1_palette:
  assumes d: "distinct raw" and n: "(0, 0, 0, 0) \<in> set raw \<or> length raw \<le> 255"
    and l: "length raw \<le> 256" and r: "map snd cs = raw"
  shows "set (palette_rgba_of cs) = insert (0, 0, 0, 0) (set raw)"
    "distinct (palette_rgba_of cs)"
proof -
  define raw' where
    "raw' = (if (0, 0, 0, 0) \<in> set raw then remove1 (0, 0, 0, 0) raw else raw)"
  have len: "length raw' \<le> 255"
    using n l by (auto simp: raw'_def length_remove1)
  have st: "insert (0, 0, 0, 0) (set raw') = insert (0, 0, 0, 0) (set raw)"
    using d by (auto simp: raw'_def)
  have dt: "distinct ((0, 0, 0, 0) # raw')"
    using d by (auto simp: raw'_def)
  have "palette_rgba_of cs = take 256 ((0, 0, 0, 0) # raw')"
    by (simp add: palette_rgba_of_def Let_def r raw'_def)
  also have "\<dots> = (0, 0, 0, 0) # raw'" using len by simp
  finally have p: "palette_rgba_of cs = (0, 0, 0, 0) # raw'" .
  show "set (palette_rgba_of cs) = insert (0, 0, 0, 0) (set raw)" using st by (simp add: p)
  show "distinct (palette_rgba_of cs)" using dt by (simp only: p)
qed

text \<open>
  Claim C9, amended (tier 1 is exact when the transparent colour fits). Let
  \<^verbatim>\<open>getcolors\<close> meet PIL's contract. For every image with at most 256 different colours
  that either contains the transparent colour \<open>(0, 0, 0, 0)\<close> or has at most 255 different
  colours, the quantizer works on the image as it is (no posterization), the palette
  holds the transparent colour and every colour of the image exactly once, and the index
  of every pixel leads back, through the RGBA palette, to the colour of that pixel.
\<close>

theorem tier1_exact:
  assumes "pil_getcolors gc" and "card (set img) \<le> 256"
    and "(0, 0, 0, 0) \<in> set img \<or> card (set img) \<le> 255"
  shows "\<exists>palette_rgba indexed.
           quantize_rgba gc img = (palette_rgba, indexed, img) \<and>
           set palette_rgba = insert (0, 0, 0, 0) (set img) \<and> distinct palette_rgba \<and>
           length indexed = length img \<and>
           (\<forall>k<length img. palette_rgba ! (indexed ! k) = img ! k)"
proof -
  from tier1_colors [OF assms(1,2)]
  obtain cs where cs: "quantize_colors gc img = (cs, img)" "distinct (map snd cs)"
    "set (map snd cs) = set img"
    by blast
  have len: "length (map snd cs) = card (set img)"
    using cs(2,3) distinct_card by fastforce
  note pal = tier1_palette [OF cs(2) _ _ refl, unfolded cs(3) len, OF assms(3) assms(2)]
  define indexed where "indexed = map (get_index (color_map (palette_rgba_of cs))) img"
  have r: "quantize_rgba gc img = (palette_rgba_of cs, indexed, img)"
    by (simp add: quantize_rgba_def cs(1) Let_def indexed_def)
  have "\<forall>k<length img. palette_rgba_of cs ! (indexed ! k) = img ! k"
    using pal(1) by (simp add: indexed_def get_index_member)
  moreover have "length indexed = length img" by (simp add: indexed_def)
  ultimately show ?thesis using r pal by blast
qed

lemma red_ramp_props:
  "distinct red_ramp" "length red_ramp = 256" "(0, 0, 0, 0) \<notin> set red_ramp"
  "red_ramp ! 255 = (255, 0, 0, 255)" "(255, 0, 0, 255) \<notin> set (take 255 red_ramp)"
  "card (set red_ramp) = 256"
proof -
  show d: "distinct red_ramp"
    by (simp add: red_ramp_def distinct_map inj_on_def)
  show l: "length red_ramp = 256" by (simp add: red_ramp_def)
  show "(0, 0, 0, 0) \<notin> set red_ramp" by (auto simp: red_ramp_def)
  show "red_ramp ! 255 = (255, 0, 0, 255)" by (simp add: red_ramp_def)
  have "take 255 red_ramp = map (\<lambda>i. (i, 0, 0, 255)) [0..<255]"
    by (simp add: red_ramp_def take_map)
  then show "(255, 0, 0, 255) \<notin> set (take 255 red_ramp)" by auto
  show "card (set red_ramp) = 256" using d l by (simp add: distinct_card)
qed

text \<open>
  Claim C9 as stated covers every image with at most 256 different colours. It fails
  for \<open>red_ramp\<close>, which has exactly 256 colours, none of them the transparent one: the
  transparent colour is put in front, the palette of 257 entries is cut to 256, and the
  pixel 255, of colour \<open>(255, 0, 0, 255)\<close>, gets the index 0 of the transparent colour.
\<close>

theorem tier1_exact_counterexample:
  "card (set red_ramp) = 256 \<and> red_ramp ! 255 = (255, 0, 0, 255) \<and>
   snd (quantize_image getcolors_first red_ramp) ! 255 = 0 \<and>
   fst (quantize_rgba getcolors_first red_ramp) ! 0 = (0, 0, 0, 0)"
proof -
  note rr = red_ramp_props
  define cs where "cs = map (\<lambda>c. (count_list red_ramp c, c)) red_ramp"
  have ms: "map snd cs = red_ramp" by (simp add: cs_def comp_def)
  have ne: "cs \<noteq> []" using rr(2) by (auto simp: cs_def)
  have rd: "remdups red_ramp = red_ramp" using rr(1) by (rule distinct_remdups_id)
  have gc: "getcolors_first red_ramp 256 = Some cs"
    using rr(2) by (simp add: getcolors_first_def Let_def cs_def rd)
  have qc: "quantize_colors getcolors_first red_ramp = (cs, red_ramp)"
    using ne by (simp add: quantize_colors_def Let_def gc not_colors_def)
  have pal: "palette_rgba_of cs = (0, 0, 0, 0) # take 255 red_ramp"
    using rr(3) by (simp add: palette_rgba_of_def Let_def ms)
  have out: "(255, 0, 0, 255) \<notin> set (palette_rgba_of cs)"
    using rr(5) by (simp add: pal)
  have r: "quantize_rgba getcolors_first red_ramp
             = (palette_rgba_of cs, map (get_index (color_map (palette_rgba_of cs))) red_ramp,
                red_ramp)"
    by (simp add: quantize_rgba_def qc Let_def)
  have "snd (quantize_image getcolors_first red_ramp) ! 255
          = get_index (color_map (palette_rgba_of cs)) (red_ramp ! 255)"
    using rr(2) by (simp add: quantize_image_def r)
  also have "\<dots> = 0" using out by (simp add: rr(4) get_index_dropped)
  finally have i: "snd (quantize_image getcolors_first red_ramp) ! 255 = 0" .
  have "fst (quantize_rgba getcolors_first red_ramp) ! 0 = (0, 0, 0, 0)"
    by (simp add: r pal)
  with i rr(4,6) show ?thesis by blast
qed

theorem tier1_exact_witness:
  "quantize_rgba getcolors_first [(1, 1, 1, 1), (255, 255, 255, 255), (1, 1, 1, 1)]
     = ([(0, 0, 0, 0), (255, 255, 255, 255), (1, 1, 1, 1)], [2, 1, 2],
        [(1, 1, 1, 1), (255, 255, 255, 255), (1, 1, 1, 1)]) \<and>
   [(0, 0, 0, 0), (255, 255, 255, 255), (1, 1, 1, 1 :: nat)] ! ([2, 1, 2] ! 0) = (1, 1, 1, 1)"
proof -
  define img :: "pixel list" where "img = [(1, 1, 1, 1), (255, 255, 255, 255), (1, 1, 1, 1)]"
  have c: "card (set img) \<le> 256" "(0, 0, 0, 0) \<in> set img \<or> card (set img) \<le> 255"
    by (simp_all add: img_def card_insert_if)
  have r: "quantize_rgba getcolors_first img
     = ([(0, 0, 0, 0), (255, 255, 255, 255), (1, 1, 1, 1)], [2, 1, 2], img)"
    unfolding img_def by code_simp
  from tier1_exact [OF getcolors_first_contract c]
  obtain palette_rgba indexed where
    q: "quantize_rgba getcolors_first img = (palette_rgba, indexed, img)"
    and e: "\<forall>k<length img. palette_rgba ! (indexed ! k) = img ! k"
    by blast
  from q r have "palette_rgba = [(0, 0, 0, 0), (255, 255, 255, 255), (1, 1, 1, 1)]"
    "indexed = [2, 1, 2]" by simp_all
  with e [rule_format, of 0]
  have "[(0, 0, 0, 0), (255, 255, 255, 255), (1, 1, 1, 1 :: nat)] ! ([2, 1, 2] ! 0) = (1, 1, 1, 1)"
    by (simp add: img_def)
  with r show ?thesis unfolding img_def by blast
qed

text \<open>
  The same for any \<^verbatim>\<open>getcolors\<close> that meets the contract, whatever order it lists the
  colours in: with exactly 256 colours and no transparent one, some pixel that is not
  transparent gets the index 0.
\<close>

lemma tier1_drops_a_colour:
  assumes gc: "pil_getcolors gc" and card: "card (set img) = 256"
    and nt: "(0, 0, 0, 0) \<notin> set img"
  shows "\<exists>palette_rgba indexed k.
           quantize_rgba gc img = (palette_rgba, indexed, img) \<and> k < length img \<and>
           indexed ! k = 0 \<and> palette_rgba ! 0 = (0, 0, 0, 0) \<and> img ! k \<noteq> (0, 0, 0, 0)"
proof -
  have "card (set img) \<le> 256" using card by simp
  from tier1_colors [OF gc this]
  obtain cs where cs: "quantize_colors gc img = (cs, img)" "distinct (map snd cs)"
    "set (map snd cs) = set img"
    by blast
  define raw where "raw = map snd cs"
  have len: "length raw = 256"
    using cs(2,3) card distinct_card unfolding raw_def by fastforce
  have d: "distinct raw" and s: "set raw = set img" using cs(2,3) by (simp_all add: raw_def)
  have pal: "palette_rgba_of cs = (0, 0, 0, 0) # take 255 raw"
    using nt s by (simp add: palette_rgba_of_def Let_def raw_def [symmetric])
  have "take (Suc 255) raw = take 255 raw @ [raw ! 255]"
    using len by (intro take_Suc_conv_app_nth) simp
  moreover have "take (Suc 255) raw = raw" using len by simp
  ultimately have split: "raw = take 255 raw @ [raw ! 255]" by simp
  have "distinct (take 255 raw @ [raw ! 255])" using d split by simp
  then have "raw ! 255 \<notin> set (take 255 raw)" by simp
  moreover have mem: "raw ! 255 \<in> set img"
  proof -
    have "raw ! 255 \<in> set raw" using len by (intro nth_mem) simp
    then show ?thesis using s by simp
  qed
  ultimately have out: "raw ! 255 \<notin> set (palette_rgba_of cs)" using nt by (auto simp: pal)
  from mem obtain k where k: "k < length img" "img ! k = raw ! 255"
    by (auto simp: in_set_conv_nth)
  define indexed where "indexed = map (get_index (color_map (palette_rgba_of cs))) img"
  have r: "quantize_rgba gc img = (palette_rgba_of cs, indexed, img)"
    by (simp add: quantize_rgba_def cs(1) Let_def indexed_def)
  have "indexed ! k = 0" using k out by (simp add: indexed_def get_index_dropped)
  moreover have "img ! k \<noteq> (0, 0, 0, 0)" using k(1) nt by (metis nth_mem)
  moreover have "palette_rgba_of cs ! 0 = (0, 0, 0, 0)" by (simp add: pal)
  ultimately show ?thesis using r k(1) by blast
qed

end
